theory Spec2Isabelle
  imports Main "HOL-Library.Word"
begin

unbundle bit_operations_syntax

section \<open>JavaScript numbers and typed arrays\<close>

text \<open>
  The codec is TypeScript. Its numbers are doubles; every number the codec computes is an
  integer far below \<open>2 ^ 53\<close>, so \<open>int\<close> is exact for them. The bitwise operators first
  convert their operands to signed 32-bit integers (ToInt32) and return a signed 32-bit
  integer: that wrap-around is written out below. A \<open>Uint8Array\<close> is a list of bytes.
\<close>

type_synonym byte = "8 word"

definition toInt32 :: "int \<Rightarrow> int" where
  "toInt32 x = signed_take_bit 31 x"

definition js_and :: "int \<Rightarrow> int \<Rightarrow> int" where
  "js_and a b = toInt32 a AND toInt32 b"

definition js_or :: "int \<Rightarrow> int \<Rightarrow> int" where
  "js_or a b = toInt32 a OR toInt32 b"

definition js_xor :: "int \<Rightarrow> int \<Rightarrow> int" where
  "js_xor a b = toInt32 a XOR toInt32 b"

definition js_shl :: "int \<Rightarrow> nat \<Rightarrow> int" where
  "js_shl a k = toInt32 (push_bit k (toInt32 a))"

definition js_shr :: "int \<Rightarrow> nat \<Rightarrow> int" where
  "js_shr a k = drop_bit k (toInt32 a)"

section \<open>Checksums (encoder.ts)\<close>

text \<open>The inner \<open>for (let j = 0; j < 8; j++)\<close> loop of \<open>calculateCRC16\<close>, with the number
  of iterations left as the first argument.\<close>

fun crc_shift :: "nat \<Rightarrow> int \<Rightarrow> int" where
  "crc_shift 0 crc = crc"
| "crc_shift (Suc j) crc =
     crc_shift j (if js_and crc 0x8000 \<noteq> 0 then js_xor (js_shl crc 1) 0x1021
                  else js_shl crc 1)"

text \<open>The outer loop over the bytes of \<open>data\<close>: \<open>crc ^= data[i] << 8\<close>, then the eight
  shifts.\<close>

fun crc_loop :: "byte list \<Rightarrow> int \<Rightarrow> int" where
  "crc_loop [] crc = crc"
| "crc_loop (b # bs) crc = crc_loop bs (crc_shift 8 (js_xor crc (js_shl (uint b) 8)))"

definition calculateCRC16 :: "byte list \<Rightarrow> int" where
  "calculateCRC16 data = js_and (crc_loop data 0) 0xFFFF"

text \<open>The reference CRC of the specification, on a 16-bit accumulator: XOR the byte into
  the high byte, then eight times shift left, and XOR with \<open>0x1021\<close> when the top bit was
  set.\<close>

fun crc16_ref_shift :: "nat \<Rightarrow> 16 word \<Rightarrow> 16 word" where
  "crc16_ref_shift 0 acc = acc"
| "crc16_ref_shift (Suc j) acc =
     crc16_ref_shift j (if bit acc 15 then push_bit 1 acc XOR 0x1021 else push_bit 1 acc)"

fun crc16_ref :: "byte list \<Rightarrow> 16 word \<Rightarrow> 16 word" where
  "crc16_ref [] acc = acc"
| "crc16_ref (b # bs) acc = crc16_ref bs (crc16_ref_shift 8 (acc XOR push_bit 8 (ucast b)))"


definition calculateHeaderChecksum :: "byte list \<Rightarrow> nat \<Rightarrow> nat \<Rightarrow> int" where
  \<comment> \<open>\<open>sum += header[i]\<close> for \<open>i\<close> from \<open>start\<close> up to \<open>start + length\<close>, then \<open>sum & 0xFF\<close>. An index
    past the end reads \<open>undefined\<close>, which turns the sum into \<open>NaN\<close>, and \<open>NaN & 0xFF\<close> is 0.\<close>
  "calculateHeaderChecksum header start len =
     (if start + len \<le> length header \<or> len = 0
      then js_and (\<Sum>i \<leftarrow> [start ..< start + len]. uint (header ! i)) 0xFF
      else 0)"

section \<open>Text (platform)\<close>

text \<open>
  A JavaScript string is a sequence of 16-bit code units. \<open>TextEncoder\<close> and
  \<open>TextDecoder\<close> belong to the platform, not to the repository; they are modelled after the
  WHATWG Encoding Standard: the encoder replaces a lone surrogate by U+FFFD, the decoder
  (\<open>fatal: false\<close>) replaces every ill-formed sequence by U+FFFD and drops a leading byte
  order mark.
\<close>

type_synonym jsstring = "16 word list"

definition lit :: "string \<Rightarrow> jsstring" where
  "lit s = map of_char s"

definition utf8_bytes :: "int \<Rightarrow> byte list" where
  \<comment> \<open>the UTF-8 bytes of a code point\<close>
  "utf8_bytes cp =
     (if cp < 0x80 then [of_int cp]
      else if cp < 0x800 then [of_int (0xC0 + cp div 64), of_int (0x80 + cp mod 64)]
      else if cp < 0x10000 then
        [of_int (0xE0 + cp div 4096), of_int (0x80 + cp div 64 mod 64), of_int (0x80 + cp mod 64)]
      else
        [of_int (0xF0 + cp div 262144), of_int (0x80 + cp div 4096 mod 64),
         of_int (0x80 + cp div 64 mod 64), of_int (0x80 + cp mod 64)])"

fun utf8_encode :: "jsstring \<Rightarrow> byte list" where
  "utf8_encode [] = []"
| "utf8_encode [u] =
     (if 0xD800 \<le> u \<and> u \<le> 0xDFFF then utf8_bytes 0xFFFD else utf8_bytes (uint u))"
| "utf8_encode (u # l # us) =
     (if 0xD800 \<le> u \<and> u \<le> 0xDBFF \<and> 0xDC00 \<le> l \<and> l \<le> 0xDFFF
      then utf8_bytes (0x10000 + (uint u - 0xD800) * 1024 + (uint l - 0xDC00)) @ utf8_encode us
      else if 0xD800 \<le> u \<and> u \<le> 0xDFFF then utf8_bytes 0xFFFD @ utf8_encode (l # us)
      else utf8_bytes (uint u) @ utf8_encode (l # us))"

definition code_units :: "int \<Rightarrow> jsstring" where
  \<comment> \<open>the UTF-16 code units of a code point\<close>
  "code_units cp =
     (if cp < 0x10000 then [of_int cp]
      else [of_int (0xD800 + (cp - 0x10000) div 1024), of_int (0xDC00 + (cp - 0x10000) mod 1024)])"

text \<open>
  The decoder's state: the code point under construction, the number of continuation
  bytes still needed, and the bounds allowed for the next byte. \<open>utf8_lead\<close> handles a byte
  read when no continuation is needed, \<open>utf8_step\<close> any byte; both return the code points
  emitted and the next state. A byte that cannot continue a sequence ends it with U+FFFD
  and is then read again as the start of the next one.
\<close>

type_synonym utf8_state = "int \<times> nat \<times> byte \<times> byte"

definition utf8_lead :: "byte \<Rightarrow> int list \<times> utf8_state" where
  "utf8_lead b =
     (if b \<le> 0x7F then ([uint b], (0, 0, 0x80, 0xBF))
      else if 0xC2 \<le> b \<and> b \<le> 0xDF then ([], (uint (b AND 0x1F), 1, 0x80, 0xBF))
      else if 0xE0 \<le> b \<and> b \<le> 0xEF then
        ([], (uint (b AND 0xF), 2, if b = 0xE0 then 0xA0 else 0x80,
              if b = 0xED then 0x9F else 0xBF))
      else if 0xF0 \<le> b \<and> b \<le> 0xF4 then
        ([], (uint (b AND 7), 3, if b = 0xF0 then 0x90 else 0x80,
              if b = 0xF4 then 0x8F else 0xBF))
      else ([0xFFFD], (0, 0, 0x80, 0xBF)))"

definition utf8_step :: "utf8_state \<Rightarrow> byte \<Rightarrow> int list \<times> utf8_state" where
  "utf8_step st b =
     (case st of (cp, needed, lower, upper) \<Rightarrow>
        if needed = 0 then utf8_lead b
        else if \<not> (lower \<le> b \<and> b \<le> upper) then
          (case utf8_lead b of (out, st') \<Rightarrow> (0xFFFD # out, st'))
        else if needed = 1 then ([cp * 64 + uint (b AND 0x3F)], (0, 0, 0x80, 0xBF))
        else ([], (cp * 64 + uint (b AND 0x3F), needed - 1, 0x80, 0xBF)))"

fun utf8_decoder :: "utf8_state \<Rightarrow> byte list \<Rightarrow> int list" where
  "utf8_decoder st [] = (case st of (cp, needed, lower, upper) \<Rightarrow>
                           if needed \<noteq> 0 then [0xFFFD] else [])"
| "utf8_decoder st (b # bs) =
     (case utf8_step st b of (out, st') \<Rightarrow> out @ utf8_decoder st' bs)"

definition utf8_decode :: "byte list \<Rightarrow> jsstring" where
  "utf8_decode bytes =
     (let cps = utf8_decoder (0, 0, 0x80, 0xBF) bytes
      in concat (map code_units (case cps of cp # rest \<Rightarrow> if cp = 0xFEFF then rest else cps
                                            | [] \<Rightarrow> [])))"

definition control_char :: "16 word \<Rightarrow> bool" where
  \<comment> \<open>the class \<open>[\x00-\x1F\x7F]\<close>\<close>
  "control_char u = (u \<le> 0x1F \<or> u = 0x7F)"

definition strip_control :: "jsstring \<Rightarrow> jsstring" where
  \<comment> \<open>\<open>str.replace(/[\x00-\x1F\x7F]/g, '')\<close>\<close>
  "strip_control str = filter (\<lambda>u. \<not> control_char u) str"

definition white_space :: "16 word \<Rightarrow> bool" where
  \<comment> \<open>ECMAScript WhiteSpace and LineTerminator, which \<open>trim\<close> removes\<close>
  "white_space u =
     (u \<in> {0x09, 0x0A, 0x0B, 0x0C, 0x0D, 0x20, 0xA0, 0x1680, 0x2028, 0x2029, 0x202F, 0x205F,
            0x3000, 0xFEFF} \<or> (0x2000 \<le> u \<and> u \<le> 0x200A))"

definition trim :: "jsstring \<Rightarrow> jsstring" where
  "trim str = rev (dropWhile white_space (rev (dropWhile white_space str)))"

definition startsWith :: "jsstring \<Rightarrow> jsstring \<Rightarrow> bool" where
  "startsWith str p = (take (length p) str = p)"

section \<open>Timestamps\<close>

text \<open>
  A \<open>Date\<close> is modelled by the local calendar fields its getters return (\<open>getMonth\<close> counts
  from 0): a year, a month from 0 to 11, a day of that month, an hour below 24, a minute and
  a second below 60. An Invalid Date, whose getters return \<open>NaN\<close>, is outside the model.
\<close>

record Date =
  getFullYear :: int
  getMonth :: int
  getDate :: int
  getHours :: int
  getMinutes :: int
  getSeconds :: int

record DosDateTime =
  date :: int
  time :: int

definition dateToDosTime :: "Date \<Rightarrow> DosDateTime" where
  "dateToDosTime d =
     (let year = max 1980 (min 2107 (getFullYear d));
          month = getMonth d + 1;
          day = getDate d;
          hour = getHours d;
          minute = getMinutes d;
          second = getSeconds d div 2;
          dosDate = js_or (js_or (js_shl (year - 1980) 9) (js_shl month 5)) day;
          dosTime = js_or (js_or (js_shl hour 11) (js_shl minute 5)) second
      in \<lparr>date = dosDate, time = dosTime\<rparr>)"

text \<open>
  \<open>new Date(year, month, day, hour, minute, second)\<close> takes any six integers as a local
  time and carries what is out of range: seconds into minutes, hours and days, months into
  years, and a day outside its month into the neighbouring months (ECMAScript \<open>MakeDay\<close>
  and \<open>MakeTime\<close>). A year from 0 to 99 means 1900 plus that year.
\<close>

definition leap_year :: "int \<Rightarrow> bool" where
  "leap_year y = ((y mod 4 = 0 \<and> y mod 100 \<noteq> 0) \<or> y mod 400 = 0)"

definition days_in_month :: "int \<Rightarrow> int \<Rightarrow> int" where
  \<comment> \<open>the month counts from 0\<close>
  "days_in_month y m =
     (if m = 1 then (if leap_year y then 29 else 28)
      else if m = 3 \<or> m = 5 \<or> m = 8 \<or> m = 10 then 30
      else 31)"

lemma days_in_month_ge: "28 \<le> days_in_month y m"
  by (simp add: days_in_month_def)

text \<open>A day before the first of the month, counted back through the months before.\<close>

function carry_back :: "int \<Rightarrow> int \<Rightarrow> int \<Rightarrow> int \<times> int \<times> int" where
  "carry_back y m d =
     (if d < 1 then
        (let y' = (if m = 0 then y - 1 else y);
             m' = (if m = 0 then 11 else m - 1)
         in carry_back y' m' (d + days_in_month y' m'))
      else (y, m, d))"
  by pat_completeness auto
termination
proof (relation "measure (\<lambda>(y, m, d). nat (1 - d))")
  show "wf (measure (\<lambda>(y, m, d). nat (1 - d)))"
    by simp
next
  fix y m d x xa :: int
  assume "d < 1" and "x = (if m = 0 then y - 1 else y)" and "xa = (if m = 0 then 11 else m - 1)"
  with days_in_month_ge [of x xa]
  show "((x, xa, d + days_in_month x xa), y, m, d) \<in> measure (\<lambda>(y, m, d). nat (1 - d))"
    by simp
qed

text \<open>A day after the last of the month, counted on through the months after.\<close>

function carry_forward :: "int \<Rightarrow> int \<Rightarrow> int \<Rightarrow> int \<times> int \<times> int" where
  "carry_forward y m d =
     (if d > days_in_month y m
      then carry_forward (if m = 11 then y + 1 else y) (if m = 11 then 0 else m + 1)
             (d - days_in_month y m)
      else (y, m, d))"
  by pat_completeness auto
termination
proof (relation "measure (\<lambda>(y, m, d). nat d)")
  show "wf (measure (\<lambda>(y, m, d). nat d))"
    by simp
next
  fix y m d :: int
  assume "days_in_month y m < d"
  with days_in_month_ge [of y m]
  show "((if m = 11 then y + 1 else y, if m = 11 then 0 else m + 1, d - days_in_month y m),
         y, m, d) \<in> measure (\<lambda>(y, m, d). nat d)"
    by simp
qed

declare carry_back.simps [simp del] carry_forward.simps [simp del]

text \<open>
  The constructor, as the fields the getters then return. \<open>localTime\<close> stands for the time
  zone of the host: it maps the calendar fields of a local time to those read back from
  the \<open>Date\<close> built from it, which are the same fields unless the zone skips that local
  time (the hour lost when daylight saving time begins).
\<close>

definition new_Date :: "(Date \<Rightarrow> Date) \<Rightarrow> int \<Rightarrow> int \<Rightarrow> int \<Rightarrow> int \<Rightarrow> int \<Rightarrow> int \<Rightarrow> Date" where
  "new_Date localTime year month day hour minute second =
     (let yr = (if 0 \<le> year \<and> year \<le> 99 then 1900 + year else year);
          t = hour * 3600 + minute * 60 + second;
          dy = day + t div 86400;
          tod = t mod 86400;
          ym = yr + month div 12;
          mn = month mod 12;
          (y, m, d) = (if dy < 1 then carry_back ym mn dy else carry_forward ym mn dy)
      in localTime
           \<lparr>getFullYear = y, getMonth = m, getDate = d, getHours = tod div 3600,
            getMinutes = tod div 60 mod 60, getSeconds = tod mod 60\<rparr>)"

definition dosDateTimeToDate :: "(Date \<Rightarrow> Date) \<Rightarrow> int \<Rightarrow> int \<Rightarrow> Date" where
  "dosDateTimeToDate localTime dosDate dosTime =
     (let year = 1980 + js_and (js_shr dosDate 9) 0x7F;
          month = js_and (js_shr dosDate 5) 0x0F - 1;
          day = js_and dosDate 0x1F;
          hour = js_and (js_shr dosTime 11) 0x1F;
          minute = js_and (js_shr dosTime 5) 0x3F;
          second = js_and dosTime 0x1F * 2
      in new_Date localTime year month day hour minute second)"

section \<open>The encoder (encoder.ts)\<close>

record LHAFileInput =
  input_filename :: jsstring
  input_data :: "byte list"
  input_timestamp :: "Date option"

definition writeWord :: "int \<Rightarrow> byte list" where
  \<comment> \<open>the two bytes \<open>writeWord\<close> stores at \<open>offset\<close> and \<open>offset + 1\<close>\<close>
  "writeWord v = [word_of_int (js_and v 0xFF), word_of_int (js_and (js_shr v 8) 0xFF)]"

definition writeDWord :: "int \<Rightarrow> byte list" where
  "writeDWord v =
     [word_of_int (js_and v 0xFF), word_of_int (js_and (js_shr v 8) 0xFF),
      word_of_int (js_and (js_shr v 16) 0xFF), word_of_int (js_and (js_shr v 24) 0xFF)]"

text \<open>
  The header \<open>writeFileHeader\<close> builds. The source fills a zeroed array of
  \<open>baseHeaderSize\<close> bytes from offset 0 upwards, every field at the running offset; the
  fields are concatenated here in that order, and the checksum is stamped into offset 1
  last. \<open>now\<close> stands for \<open>new Date()\<close>, used when the input has no timestamp.
\<close>

definition fileHeader :: "Date \<Rightarrow> LHAFileInput \<Rightarrow> byte list" where
  "fileHeader now file =
     (let timestamp = (case input_timestamp file of Some t \<Rightarrow> t | None \<Rightarrow> now);
          compressedData = input_data file;
          originalSize = int (length (input_data file));
          compressedSize = int (length compressedData);
          crc = calculateCRC16 (input_data file);
          filenameBytes = utf8_encode (input_filename file);
          filenameLength = min (length filenameBytes) 255;
          baseHeaderSize = 2 + 5 + 4 + 4 + 2 + 2 + 1 + 1 + 1 + filenameLength + 2;
          headerSize = baseHeaderSize - 2;
          dosTime = dateToDosTime timestamp;
          header =
            [of_nat headerSize, 0] @ utf8_encode (lit ''-lh0-'') @ writeDWord compressedSize
            @ writeDWord originalSize @ writeWord (time dosTime) @ writeWord (date dosTime)
            @ [0x20, 0x00, of_nat filenameLength] @ take filenameLength filenameBytes
            @ writeWord crc
      in header[1 := word_of_int (calculateHeaderChecksum header 2 headerSize)])"

definition writeFileHeader :: "Date \<Rightarrow> LHAFileInput \<Rightarrow> byte list" where
  \<comment> \<open>the two chunks pushed on \<open>this.output\<close>: the header, then the data\<close>
  "writeFileHeader now file = fileHeader now file @ input_data file"

definition create :: "Date \<Rightarrow> LHAFileInput list \<Rightarrow> byte list" where
  "create now files = concat (map (writeFileHeader now) files) @ [0x00]"


section \<open>Decompression (decoder.ts)\<close>

datatype error = UnexpectedEndOfFile | RangeError

definition u8_get :: "byte list \<Rightarrow> int \<Rightarrow> int" where
  \<comment> \<open>\<open>array[i]\<close> as the value later stored into a \<open>Uint8Array\<close>: an index outside the
    array reads \<open>undefined\<close>, which is stored as 0\<close>
  "u8_get a i = (if 0 \<le> i \<and> i < int (length a) then uint (a ! nat i) else 0)"

subsection \<open>\<open>decompressLH1\<close>: LZSS with a 4KB dictionary\<close>

text \<open>The local variables both decompression routines share, then those of each.\<close>

record decomp_state =
  "output" :: "byte list"
  outPos :: nat
  inPos :: nat

record lh1_state = decomp_state +
  dictionary :: "byte list"
  dictPos :: nat
  bitBuffer :: int
  bitCount :: nat

record lh5_state = decomp_state +
  window :: "byte list"
  windowPos :: nat

definition getBit :: "byte list \<Rightarrow> lh1_state \<Rightarrow> int \<times> lh1_state" where
  "getBit compressed s =
     (if bitCount s = 0 \<and> inPos s \<ge> length compressed then (0, s)
      else
        (let s1 = (if bitCount s = 0
                   then s\<lparr>bitBuffer := uint (compressed ! inPos s), inPos := inPos s + 1,
                          bitCount := 8\<rparr>
                   else s);
             b = js_and (bitBuffer s1) 1
         in (b, s1\<lparr>bitBuffer := js_shr (bitBuffer s1) 1, bitCount := bitCount s1 - 1\<rparr>)))"

text \<open>\<open>getBits(n)\<close>: the loop \<open>for (let i = 0; i < n; i++) value |= getBit() << i\<close>, with
  the number of iterations left as the first argument.\<close>

fun getBits_loop :: "nat \<Rightarrow> byte list \<Rightarrow> nat \<Rightarrow> int \<Rightarrow> lh1_state \<Rightarrow> int \<times> lh1_state" where
  "getBits_loop 0 compressed i v s = (v, s)"
| "getBits_loop (Suc k) compressed i v s =
     (let (b, s1) = getBit compressed s
      in getBits_loop k compressed (i + 1) (js_or v (js_shl b i)) s1)"

definition getBits :: "byte list \<Rightarrow> nat \<Rightarrow> lh1_state \<Rightarrow> int \<times> lh1_state" where
  "getBits compressed n s = getBits_loop n compressed 0 0 s"

definition lh1_emit :: "int \<Rightarrow> lh1_state \<Rightarrow> lh1_state" where
  \<comment> \<open>\<open>output[outPos++] = byte; dictionary[dictPos] = byte; dictPos = (dictPos + 1) & 4095\<close>\<close>
  "lh1_emit byte s =
     s\<lparr>output := (output s)[outPos s := word_of_int byte], outPos := outPos s + 1,
       dictionary := (dictionary s)[dictPos s := word_of_int byte],
       dictPos := nat (js_and (int (dictPos s) + 1) 4095)\<rparr>"

text \<open>The match loop \<open>for (let i = 0; i < length && outPos < originalSize; i++)\<close>, with
  the number of iterations left as the first argument. It reads \<open>dictionary[position]\<close> at
  every iteration: the source never changes \<open>position\<close>.\<close>

fun lh1_match :: "nat \<Rightarrow> nat \<Rightarrow> int \<Rightarrow> lh1_state \<Rightarrow> lh1_state" where
  "lh1_match 0 originalSize position s = s"
| "lh1_match (Suc k) originalSize position s =
     (if outPos s < originalSize
      then lh1_match k originalSize position (lh1_emit (u8_get (dictionary s) position) s)
      else s)"

definition lh1_token :: "byte list \<Rightarrow> nat \<Rightarrow> lh1_state \<Rightarrow> lh1_state" where
  \<comment> \<open>the body of the \<open>while\<close> loop\<close>
  "lh1_token compressed originalSize s =
     (let (flag, s1) = getBit compressed s
      in if flag \<noteq> 0 then
           (let (byte, s2) = getBits compressed 8 s1 in lh1_emit byte s2)
         else
           (let (position, s2) = getBits compressed 12 s1;
                (len4, s3) = getBits compressed 4 s2
            in lh1_match (nat (len4 + 3)) originalSize position s3))"

lemma outPos_getBit: "outPos (snd (getBit compressed s)) = outPos s"
  by (simp add: getBit_def Let_def)

lemma outPos_getBits_loop: "outPos (snd (getBits_loop k compressed i v s)) = outPos s"
  by (induction k arbitrary: i v s) (simp_all add: split_beta outPos_getBit)

lemma outPos_lh1_match_mono: "outPos s \<le> outPos (lh1_match k originalSize position s)"
proof (induction k arbitrary: s)
  case 0
  then show ?case by simp
next
  case (Suc k)
  show ?case
    using Suc [of "lh1_emit (u8_get (dictionary s) position) s"]
    by (simp add: lh1_emit_def)
qed

lemma outPos_lh1_match:
  "outPos s < originalSize \<Longrightarrow> outPos s < outPos (lh1_match (Suc k) originalSize position s)"
  using outPos_lh1_match_mono [of "lh1_emit (u8_get (dictionary s) position) s" k originalSize position]
  by (simp add: lh1_emit_def)

lemma toInt32_small: "- (2 ^ 31) \<le> x \<Longrightarrow> x < 2 ^ 31 \<Longrightarrow> toInt32 x = x"
  unfolding toInt32_def by (simp add: signed_take_bit_int_eq_self)

lemma or_push_bit_add:
  fixes v :: int
  assumes "0 \<le> v" "v < 2 ^ i"
  shows "v OR push_bit i b = v + b * 2 ^ i"
proof -
  have "take_bit i v = v" using assms by (simp add: take_bit_int_eq_self)
  then have "v OR push_bit i b = concat_bit i v b" by (simp add: concat_bit_def)
  also have "\<dots> = take_bit i v + push_bit i b" by (rule concat_bit_eq)
  finally show ?thesis using \<open>take_bit i v = v\<close> by (simp add: push_bit_eq_mult)
qed

lemma js_and_1: "js_and x 1 = x mod 2"
proof -
  have one: "toInt32 1 = 1" by (simp add: toInt32_small)
  have "js_and x 1 = toInt32 x AND 1" unfolding js_and_def one ..
  also have "\<dots> = toInt32 x mod 2" by (rule and_one_eq)
  also have "\<dots> = x mod 2"
    by (simp add: toInt32_def mod2_eq_if even_signed_take_bit_iff)
  finally show ?thesis .
qed

lemma getBit_range: "fst (getBit compressed s) \<in> {0, 1}"
  by (auto simp add: getBit_def Let_def js_and_1)

lemma js_or_shl_bit:
  assumes "0 \<le> v" "v < 2 ^ i" "b \<in> {0, 1}" "i \<le> 29"
  shows "js_or v (js_shl b i) = v + b * 2 ^ i"
proof -
  have p: "(2::int) ^ i \<le> 2 ^ 29" using assms(4) by (intro power_increasing) auto
  have b: "0 \<le> b" "b \<le> 1" using assms(3) by auto
  have bi: "0 \<le> b * 2 ^ i" "b * 2 ^ i \<le> 2 ^ 29" using assms(3) p by auto
  have "toInt32 b = b" using b by (intro toInt32_small) auto
  moreover have "toInt32 (b * 2 ^ i) = b * 2 ^ i" using bi by (intro toInt32_small) auto
  moreover have "toInt32 v = v" using assms(1,2) p by (intro toInt32_small) auto
  ultimately show ?thesis using assms(1,2)
    by (simp add: js_or_def js_shl_def push_bit_eq_mult or_push_bit_add[symmetric])
qed

lemma getBits_loop_range:
  "0 \<le> v \<Longrightarrow> v < 2 ^ i \<Longrightarrow> i + k \<le> 30 \<Longrightarrow>
   0 \<le> fst (getBits_loop k compressed i v s) \<and> fst (getBits_loop k compressed i v s) < 2 ^ (i + k)"
proof (induction k arbitrary: i v s)
  case 0
  then show ?case by simp
next
  case (Suc k)
  obtain b s1 where g: "getBit compressed s = (b, s1)" by (cases "getBit compressed s")
  then have b: "b \<in> {0, 1}" using getBit_range [of compressed s] by simp
  have e: "js_or v (js_shl b i) = v + b * 2 ^ i"
    using Suc.prems b by (intro js_or_shl_bit) auto
  have "0 \<le> v + b * 2 ^ i" "v + b * 2 ^ i < 2 ^ (i + 1)"
    using Suc.prems b by auto
  then show ?case
    using Suc.IH [of "v + b * 2 ^ i" "i + 1" s1] Suc.prems g e by simp
qed

lemma getBits_range: "n \<le> 30 \<Longrightarrow> 0 \<le> fst (getBits compressed n s) \<and> fst (getBits compressed n s) < 2 ^ n"
  using getBits_loop_range [of 0 0 n compressed s] by (simp add: getBits_def)

lemma outPos_getBits: "outPos (snd (getBits compressed n s)) = outPos s"
  by (simp add: getBits_def outPos_getBits_loop)

lemma outPos_lh1_token:
  "outPos s < originalSize \<Longrightarrow> outPos s < outPos (lh1_token compressed originalSize s)"
proof -
  assume lt: "outPos s < originalSize"
  obtain flag s1 where g1: "getBit compressed s = (flag, s1)" by (cases "getBit compressed s")
  then have o1: "outPos s1 = outPos s" using outPos_getBit [of compressed s] by simp
  show ?thesis
  proof (cases "flag \<noteq> 0")
    case True
    obtain byte s2 where g2: "getBits compressed 8 s1 = (byte, s2)" by (cases "getBits compressed 8 s1")
    then have "outPos s2 = outPos s" using outPos_getBits [of compressed 8 s1] o1 by simp
    then show ?thesis using True g1 g2 by (simp add: lh1_token_def lh1_emit_def)
  next
    case False
    obtain position s2 where g2: "getBits compressed 12 s1 = (position, s2)" by (cases "getBits compressed 12 s1")
    obtain len4 s3 where g3: "getBits compressed 4 s2 = (len4, s3)" by (cases "getBits compressed 4 s2")
    have o3: "outPos s3 = outPos s"
      using outPos_getBits [of compressed 12 s1] outPos_getBits [of compressed 4 s2] o1 g2 g3 by simp
    have "0 \<le> len4" using getBits_range [of 4 compressed s2] g3 by simp
    then obtain k where k: "nat (len4 + 3) = Suc k" by (cases "nat (len4 + 3)") auto
    show ?thesis
      using False g1 g2 g3 k o3 lt outPos_lh1_match [of s3 originalSize k position]
      by (simp add: lh1_token_def)
  qed
qed

function lh1_loop :: "byte list \<Rightarrow> nat \<Rightarrow> lh1_state \<Rightarrow> lh1_state" where
  "lh1_loop compressed originalSize s =
     (if outPos s < originalSize \<and> inPos s < length compressed
      then lh1_loop compressed originalSize (lh1_token compressed originalSize s)
      else s)"
  by pat_completeness auto
termination
proof (relation "measure (\<lambda>(compressed, originalSize, s). originalSize - outPos s)")
  show "wf (measure (\<lambda>(compressed, originalSize, s). originalSize - outPos s))"
    by simp
next
  fix compressed :: "byte list" and originalSize :: nat and s :: lh1_state
  assume "outPos s < originalSize \<and> inPos s < length compressed"
  then have "outPos s < originalSize" by simp
  from outPos_lh1_token [OF this, of compressed] this
  show "((compressed, originalSize, lh1_token compressed originalSize s),
         compressed, originalSize, s)
        \<in> measure (\<lambda>(compressed, originalSize, s). originalSize - outPos s)"
    by simp
qed

declare lh1_loop.simps [simp del]

definition decompressLH1 :: "byte list \<Rightarrow> int \<Rightarrow> error + byte list" where
  "decompressLH1 compressed originalSize =
     (if originalSize < 0 then Inl RangeError
      else Inr (output (lh1_loop compressed (nat originalSize)
                  \<lparr>output = replicate (nat originalSize) 0, outPos = 0, inPos = 0,
                   dictionary = replicate 4096 0, dictPos = 0, bitBuffer = 0,
                   bitCount = 0\<rparr>)))"

subsection \<open>\<open>decompressLH5\<close>: the simplified 8KB-window routine\<close>

definition js_rem :: "int \<Rightarrow> int \<Rightarrow> int" where
  \<comment> \<open>the operator \<open>%\<close>: the remainder takes the sign of the dividend\<close>
  "js_rem a b = sgn a * (\<bar>a\<bar> mod \<bar>b\<bar>)"

definition lh5_emit :: "int \<Rightarrow> lh5_state \<Rightarrow> lh5_state" where
  \<comment> \<open>\<open>output[outPos++] = byte; window[windowPos] = byte;
    windowPos = (windowPos + 1) % windowSize\<close>\<close>
  "lh5_emit byte s =
     s\<lparr>output := (output s)[outPos s := word_of_int byte], outPos := outPos s + 1,
       window := (window s)[windowPos s := word_of_int byte],
       windowPos := nat (js_rem (int (windowPos s) + 1) 8192)\<rparr>"

text \<open>The match loop \<open>for (let i = 0; i < length && outPos < originalSize; i++)\<close>, with
  the number of iterations left as the first argument; \<open>pos\<close> is computed anew from
  \<open>windowPos\<close> at every iteration.\<close>

fun lh5_match :: "nat \<Rightarrow> nat \<Rightarrow> int \<Rightarrow> lh5_state \<Rightarrow> lh5_state" where
  "lh5_match 0 originalSize offset s = s"
| "lh5_match (Suc k) originalSize offset s =
     (if outPos s < originalSize
      then lh5_match k originalSize offset
             (lh5_emit (u8_get (window s) (js_rem (int (windowPos s) - offset + 8192) 8192)) s)
      else s)"

text \<open>The loop over the bits of one flag byte,
  \<open>for (let bit = 0; bit < 8 && outPos < originalSize && inPos < compressed.length; bit++)\<close>;
  the \<open>break\<close> of the match branch leaves it.\<close>

function lh5_group :: "byte list \<Rightarrow> nat \<Rightarrow> int \<Rightarrow> nat \<Rightarrow> lh5_state \<Rightarrow> lh5_state" where
  "lh5_group compressed originalSize flag bitno s =
     (if bitno < 8 \<and> outPos s < originalSize \<and> inPos s < length compressed then
        (if js_and flag (js_shl 1 bitno) \<noteq> 0 then
           lh5_group compressed originalSize flag (bitno + 1)
             (lh5_emit (uint (compressed ! inPos s)) (s\<lparr>inPos := inPos s + 1\<rparr>))
         else if inPos s + 1 \<ge> length compressed then s
         else
           (let byte1 = uint (compressed ! inPos s);
                byte2 = uint (compressed ! (inPos s + 1));
                s1 = s\<lparr>inPos := inPos s + 2\<rparr>;
                offset = js_or (js_shl (js_and byte2 0xF0) 4) byte1;
                len = js_and byte2 0x0F + 3
            in lh5_group compressed originalSize flag (bitno + 1)
                 (lh5_match (nat len) originalSize offset s1)))
      else s)"
  by pat_completeness auto
termination
  by (relation "measure (\<lambda>(compressed, originalSize, flag, bitno, s). 8 - bitno)") auto

lemma inPos_lh5_match: "inPos (lh5_match k originalSize offset s) = inPos s"
  by (induction k arbitrary: s) (simp_all add: lh5_emit_def)

declare lh5_group.simps [simp del]

lemma inPos_lh5_group: "inPos s \<le> inPos (lh5_group compressed originalSize flag bitno s)"
proof (induction compressed originalSize flag bitno s rule: lh5_group.induct)
  case (1 compressed originalSize flag bitno s)
  show ?case
  proof (cases "bitno < 8 \<and> outPos s < originalSize \<and> inPos s < length compressed")
    case False
    then show ?thesis by (subst lh5_group.simps) auto
  next
    case c: True
    show ?thesis
    proof (cases "js_and flag (js_shl 1 bitno) \<noteq> 0")
      case True
      from "1.IH"(1) [OF c True] have
        "Suc (inPos s) \<le> inPos (lh5_group compressed originalSize flag (bitno + 1)
           (lh5_emit (uint (compressed ! inPos s)) (s\<lparr>inPos := inPos s + 1\<rparr>)))"
        by (simp add: lh5_emit_def)
      with c True show ?thesis by (subst lh5_group.simps) simp
    next
      case f: False
      show ?thesis
      proof (cases "inPos s + 1 \<ge> length compressed")
        case True
        with c f show ?thesis by (subst lh5_group.simps) simp
      next
        case False
        from "1.IH"(2) [OF c f False refl refl refl refl refl] c f False show ?thesis
          by (subst lh5_group.simps) (simp add: Let_def inPos_lh5_match)
      qed
    qed
  qed
qed

function lh5_loop :: "byte list \<Rightarrow> nat \<Rightarrow> lh5_state \<Rightarrow> lh5_state" where
  "lh5_loop compressed originalSize s =
     (if outPos s < originalSize \<and> inPos s < length compressed
      then lh5_loop compressed originalSize
             (lh5_group compressed originalSize (uint (compressed ! inPos s)) 0
                (s\<lparr>inPos := inPos s + 1\<rparr>))
      else s)"
  by pat_completeness auto
termination
proof (relation "measure (\<lambda>(compressed, originalSize, s). length compressed - inPos s)")
  show "wf (measure (\<lambda>(compressed, originalSize, s). length compressed - inPos s))"
    by simp
next
  fix compressed :: "byte list" and originalSize :: nat and s :: lh5_state
  assume "outPos s < originalSize \<and> inPos s < length compressed"
  then have "inPos s < length compressed" by simp
  with inPos_lh5_group [of "s\<lparr>inPos := inPos s + 1\<rparr>" compressed originalSize
         "uint (compressed ! inPos s)" 0]
  show "((compressed, originalSize,
          lh5_group compressed originalSize (uint (compressed ! inPos s)) 0
            (s\<lparr>inPos := inPos s + 1\<rparr>)),
         compressed, originalSize, s)
        \<in> measure (\<lambda>(compressed, originalSize, s). length compressed - inPos s)"
    by simp
qed

declare lh5_loop.simps [simp del]

definition decompressLH5 :: "byte list \<Rightarrow> int \<Rightarrow> error + byte list" where
  "decompressLH5 compressed originalSize =
     (if originalSize < 0 then Inl RangeError
      else Inr (output (lh5_loop compressed (nat originalSize)
                  \<lparr>output = replicate (nat originalSize) 0, outPos = 0, inPos = 0,
                   window = replicate 8192 0, windowPos = 0\<rparr>)))"

section \<open>The archive reader (decoder.ts)\<close>

text \<open>
  A value read from the input is a number or, when the index is outside the array,
  \<open>undefined\<close>; the cursor \<open>this.offset\<close> is a number or, after \<open>undefined\<close> has been added to
  it, \<open>NaN\<close>. An arithmetic operator turns \<open>undefined\<close> into \<open>NaN\<close>, a comparison with
  \<open>NaN\<close> is false, and a bitwise operator reads both as 0.
\<close>

datatype jsval = Num int | NaN | Undefined

fun js_add :: "jsval \<Rightarrow> jsval \<Rightarrow> jsval" where
  "js_add (Num a) (Num b) = Num (a + b)"
| "js_add _ _ = NaN"

fun js_sub :: "jsval \<Rightarrow> jsval \<Rightarrow> jsval" where
  "js_sub (Num a) (Num b) = Num (a - b)"
| "js_sub _ _ = NaN"

fun js_gt :: "jsval \<Rightarrow> jsval \<Rightarrow> bool" where
  "js_gt (Num a) (Num b) = (a > b)"
| "js_gt _ _ = False"

fun js_ge :: "jsval \<Rightarrow> jsval \<Rightarrow> bool" where
  "js_ge (Num a) (Num b) = (a \<ge> b)"
| "js_ge _ _ = False"

fun js_lt :: "jsval \<Rightarrow> jsval \<Rightarrow> bool" where
  "js_lt (Num a) (Num b) = (a < b)"
| "js_lt _ _ = False"

fun int32 :: "jsval \<Rightarrow> int" where
  \<comment> \<open>ToInt32, as applied to the operands of \<open>|\<close> and \<open><<\<close>\<close>
  "int32 (Num a) = toInt32 a"
| "int32 _ = 0"

fun u8_at :: "byte list \<Rightarrow> jsval \<Rightarrow> jsval" where
  \<comment> \<open>\<open>array[index]\<close>\<close>
  "u8_at a (Num i) = (if 0 \<le> i \<and> i < int (length a) then Num (uint (a ! nat i)) else Undefined)"
| "u8_at a _ = Undefined"

definition relative_index :: "nat \<Rightarrow> int \<Rightarrow> nat" where
  \<comment> \<open>how \<open>slice\<close> reads a start or an end: a negative index counts from the end, and the
    result is clamped to the array\<close>
  "relative_index len r = (if r < 0 then nat (max (int len + r) 0) else nat (min r (int len)))"

definition slice :: "byte list \<Rightarrow> jsval \<Rightarrow> jsval \<Rightarrow> byte list" where
  \<comment> \<open>\<open>array.slice(start, end)\<close> of a typed array: \<open>NaN\<close> is index 0, an \<open>undefined\<close> end is
    the length\<close>
  "slice a start fin =
     (let len = length a;
          k = relative_index len (case start of Num i \<Rightarrow> i | _ \<Rightarrow> 0);
          final = relative_index len
                    (case fin of Num i \<Rightarrow> i | NaN \<Rightarrow> 0 | Undefined \<Rightarrow> int len)
      in take (final - k) (drop k a))"

text \<open>
  The reading methods take the cursor \<open>this.offset\<close> and return it updated, together with
  their result, or the exception they throw. \<open>buf\<close> is the array \<open>this.data\<close> being read.
\<close>

type_synonym 'a reader = "jsval \<Rightarrow> error + ('a \<times> jsval)"

definition rd_return :: "'a \<Rightarrow> 'a reader" where
  "rd_return x = (\<lambda>offset. Inr (x, offset))"

definition rd_bind :: "'a reader \<Rightarrow> ('a \<Rightarrow> 'b reader) \<Rightarrow> 'b reader" where
  "rd_bind m f = (\<lambda>offset. case m offset of Inl e \<Rightarrow> Inl e | Inr (x, offset') \<Rightarrow> f x offset')"

definition rd_lift :: "error + 'a \<Rightarrow> 'a reader" where
  \<comment> \<open>a call that may throw and leaves the cursor alone\<close>
  "rd_lift r = (\<lambda>offset. case r of Inl e \<Rightarrow> Inl e | Inr x \<Rightarrow> Inr (x, offset))"

definition readByte :: "byte list \<Rightarrow> jsval reader" where
  "readByte buf = (\<lambda>offset.
     if js_ge offset (Num (int (length buf))) then Inl UnexpectedEndOfFile
     else Inr (u8_at buf offset, js_add offset (Num 1)))"

definition readWord :: "byte list \<Rightarrow> int reader" where
  "readWord buf =
     rd_bind (readByte buf) (\<lambda>low.
     rd_bind (readByte buf) (\<lambda>high.
     rd_return (js_or (int32 low) (js_shl (int32 high) 8))))"

definition readDWord :: "byte list \<Rightarrow> int reader" where
  "readDWord buf =
     rd_bind (readWord buf) (\<lambda>low.
     rd_bind (readWord buf) (\<lambda>high.
     rd_return (js_or low (js_shl high 16))))"

definition readBytes :: "byte list \<Rightarrow> jsval \<Rightarrow> (byte list) reader" where
  "readBytes buf len = (\<lambda>offset.
     if js_gt (js_add offset len) (Num (int (length buf))) then Inl UnexpectedEndOfFile
     else Inr (slice buf offset (js_add offset len), js_add offset len))"

definition readString :: "byte list \<Rightarrow> jsval \<Rightarrow> jsstring reader" where
  "readString buf len =
     rd_bind (readBytes buf len) (\<lambda>bytes.
       let validBytes = (if 0 \<in> set bytes then takeWhile (\<lambda>b. b \<noteq> 0) bytes
                         else slice bytes (Num 0) len)
       in rd_return (strip_control (utf8_decode validBytes)))"

lemma readByte_Inr:
  "readByte buf offset = Inr (v, offset') \<Longrightarrow>
   offset' = js_add offset (Num 1) \<and> v = u8_at buf offset
   \<and> \<not> js_ge offset (Num (int (length buf)))"
  by (auto simp add: readByte_def split: if_splits)

lemma toInt32_uint8: "toInt32 (uint (b :: byte)) = uint b"
proof (rule toInt32_small)
  have "- (2 ^ 31) \<le> (0::int)" by simp
  then show "- (2 ^ 31) \<le> uint b" by (rule order_trans) (rule uint_ge_0)
  show "uint b < 2 ^ 31" using uint_bounded [of b] by simp
qed

lemma u8_at_int32_range: "0 \<le> int32 (u8_at buf offset) \<and> int32 (u8_at buf offset) < 256"
proof (cases offset)
  case (Num i)
  have "uint (buf ! nat i) < 256"
    using uint_bounded [of "buf ! nat i"] by simp
  then show ?thesis using Num by (simp add: toInt32_uint8)
qed simp_all

lemma js_or_shl_byte:
  assumes "0 \<le> lo" "lo < 2 ^ k" "0 \<le> hi" "hi < 2 ^ m" "k + m \<le> 31"
  shows "js_or lo (js_shl hi k) = lo + hi * 2 ^ k"
proof -
  have "hi * 2 ^ k < 2 ^ m * 2 ^ k" using assms by (intro mult_strict_right_mono) auto
  also have "\<dots> = 2 ^ (k + m)" by (simp add: power_add)
  also have "\<dots> \<le> (2::int) ^ 31" using assms(5) by (intro power_increasing) auto
  finally have hk: "hi * 2 ^ k < 2 ^ 31" .
  have hk0: "0 \<le> hi * 2 ^ k" using assms(3) by simp
  have "(2::int) ^ k \<le> 2 ^ 31" using assms(5) by (intro power_increasing) auto
  then have l: "lo < 2 ^ 31" using assms(2) by simp
  have "(2::int) ^ m \<le> 2 ^ 31" using assms(5) by (intro power_increasing) auto
  then have h: "hi < 2 ^ 31" using assms(4) by simp
  have "toInt32 hi = hi" using assms(3) h by (intro toInt32_small) auto
  moreover have "toInt32 (hi * 2 ^ k) = hi * 2 ^ k" using hk0 hk by (intro toInt32_small) auto
  moreover have "toInt32 lo = lo" using assms(1) l by (intro toInt32_small) auto
  ultimately show ?thesis using assms(1,2)
    by (simp add: js_or_def js_shl_def push_bit_eq_mult or_push_bit_add [symmetric])
qed

lemma readWord_Inr:
  assumes "readWord buf offset = Inr (w, offset')"
  shows "offset' = js_add (js_add offset (Num 1)) (Num 1)"
    and "0 \<le> w" and "w < 65536"
    and "\<not> js_ge offset (Num (int (length buf)))"
    and "w = int32 (u8_at buf offset) + int32 (u8_at buf (js_add offset (Num 1))) * 256"
proof -
  from assms obtain lo o1 hi where
    1: "readByte buf offset = Inr (lo, o1)" and 2: "readByte buf o1 = Inr (hi, offset')"
    and w: "w = js_or (int32 lo) (js_shl (int32 hi) 8)"
    by (auto simp add: readWord_def rd_bind_def rd_return_def split: sum.splits)
  note a = readByte_Inr [OF 1] and b = readByte_Inr [OF 2]
  have r1: "0 \<le> int32 lo \<and> int32 lo < 256" using a u8_at_int32_range by simp
  have r2: "0 \<le> int32 hi \<and> int32 hi < 256" using b u8_at_int32_range by simp
  have "w = int32 lo + int32 hi * 2 ^ 8"
    unfolding w using r1 r2 by (intro js_or_shl_byte [where m = 8]) auto
  then have w': "w = int32 lo + int32 hi * 256" by simp
  show "offset' = js_add (js_add offset (Num 1)) (Num 1)" using a b by simp
  show "0 \<le> w" using w' r1 r2 by simp
  show "w < 65536" using w' r1 r2 by simp
  show "\<not> js_ge offset (Num (int (length buf)))" using a by simp
  show "w = int32 (u8_at buf offset) + int32 (u8_at buf (js_add offset (Num 1))) * 256"
    using w' a b by simp
qed

lemma readBytes_Inr:
  "readBytes buf len offset = Inr (bs, offset') \<Longrightarrow>
   offset' = js_add offset len \<and> \<not> js_gt (js_add offset len) (Num (int (length buf)))
   \<and> bs = slice buf offset (js_add offset len)"
  by (auto simp add: readBytes_def split: if_splits)

text \<open>The level-1 loop \<open>while (true)\<close> over the extended headers. It ends: a size that is
  not 0 moves the cursor forward by that size, and \<open>readByte\<close> throws at the end of the
  buf.\<close>

function skipLevel1 :: "byte list \<Rightarrow> unit reader" where
  "skipLevel1 buf offset =
     (case readWord buf offset of
        Inl e \<Rightarrow> Inl e
      | Inr (extSize, offset1) \<Rightarrow>
          if extSize = 0 then Inr ((), offset1)
          else (case readBytes buf (Num (extSize - 2)) offset1 of
                  Inl e \<Rightarrow> Inl e
                | Inr (skipped, offset2) \<Rightarrow> skipLevel1 buf offset2))"
  by pat_completeness auto
termination
proof (relation "measure (\<lambda>(buf, offset).
         case offset of Num i \<Rightarrow> nat (int (length buf) - i) | _ \<Rightarrow> 0)")
  show "wf (measure (\<lambda>(buf, offset).
         case offset of Num i \<Rightarrow> nat (int (length buf) - i) | _ \<Rightarrow> 0))"
    by simp
next
  fix buf :: "byte list" and offset x2 and x :: "int \<times> jsval" and extSize offset1
    and x2a and y :: "byte list \<times> jsval" and skipped offset2
  assume w: "readWord buf offset = Inr x2" "(extSize, offset1) = x2" "extSize \<noteq> 0"
    and b: "readBytes buf (Num (extSize - 2)) offset1 = Inr x2a" "(skipped, offset2) = x2a"
  from w have rw: "readWord buf offset = Inr (extSize, offset1)" by simp
  from b have rb: "readBytes buf (Num (extSize - 2)) offset1 = Inr (skipped, offset2)" by simp
  note a = readWord_Inr(1-4) [OF rw] and c = readBytes_Inr [OF rb]
  show "((buf, offset2), buf, offset) \<in> measure (\<lambda>(buf, offset).
         case offset of Num i \<Rightarrow> nat (int (length buf) - i) | _ \<Rightarrow> 0)"
  proof (cases offset)
    case (Num i)
    with a c w(3) show ?thesis by auto
  next
    case NaN
    with readWord_Inr(5) [OF rw] w(3) show ?thesis by simp
  next
    case Undefined
    with readWord_Inr(5) [OF rw] w(3) show ?thesis by simp
  qed
qed

declare skipLevel1.simps [simp del]

definition skipExtended :: "byte list \<Rightarrow> jsval \<Rightarrow> jsval \<Rightarrow> unit reader" where
  \<comment> \<open>the statement \<open>if (level === 1) \<dots> else if (level === 2) \<dots>\<close> of \<open>readHeader\<close>\<close>
  "skipExtended buf level headerSize =
     (if level = Num 1 then skipLevel1 buf
      else if level = Num 2 then
        rd_bind (readWord buf) (\<lambda>totalHeaderSize.
          if js_gt (Num totalHeaderSize) headerSize
          then rd_bind
                 (readBytes buf (js_sub (js_sub (Num totalHeaderSize) headerSize) (Num 2)))
                 (\<lambda>skipped. rd_return ())
          else rd_return ())
      else rd_return ())"

definition decompress :: "jsstring \<Rightarrow> byte list \<Rightarrow> int \<Rightarrow> error + byte list" where
  \<comment> \<open>the dispatch on the method tag in \<open>readHeader\<close>\<close>
  "decompress method compressedData originalSize =
     (if method = lit ''-lh0-'' then Inr compressedData
      else if method = lit ''-lh1-'' then decompressLH1 compressedData originalSize
      else if method = lit ''-lh4-'' \<or> method = lit ''-lh5-'' \<or> method = lit ''-lh6-''
              \<or> method = lit ''-lh7-''
           then decompressLH5 compressedData originalSize
      else if method = lit ''-lhd-'' then Inr []
      else Inr compressedData)"

definition sanitizeFilename :: "jsstring \<Rightarrow> jsstring" where
  \<comment> \<open>\<open>filename.replace(/[\x00-\x1F\x7F]/g, '').trim() || 'unnamed'\<close>\<close>
  "sanitizeFilename filename =
     (let s = trim (strip_control filename) in if s = [] then lit ''unnamed'' else s)"

record LHAFile =
  filename :: jsstring
  originalSize :: int
  compressedSize :: int
  timestamp :: Date
  crc :: int
  "method" :: jsstring
  os :: jsval
  data :: "byte list"

definition readHeader :: "(Date \<Rightarrow> Date) \<Rightarrow> byte list \<Rightarrow> (LHAFile option) reader" where
  "readHeader localTime buf = (\<lambda>offset.
     if js_ge offset (Num (int (length buf))) then Inr (None, offset)
     else
      (rd_bind (readByte buf) (\<lambda>headerSize.
       if headerSize = Num 0 \<or> js_gt headerSize (Num 128) then rd_return None
       else
       rd_bind (readByte buf) (\<lambda>headerChecksum.
       rd_bind (readString buf (Num 5)) (\<lambda>method.
       if \<not> startsWith method (lit ''-lh'') \<and> \<not> startsWith method (lit ''-lz'')
          \<and> method \<noteq> lit ''-lhd-''
       then rd_return None
       else
       rd_bind (readDWord buf) (\<lambda>compressedSize.
       rd_bind (readDWord buf) (\<lambda>originalSize.
       if compressedSize > int (length buf) \<or> originalSize > 100 * 1024 * 1024
       then rd_return None
       else
       rd_bind (readWord buf) (\<lambda>dosTime.
       rd_bind (readWord buf) (\<lambda>dosDate.
       rd_bind (readByte buf) (\<lambda>attributes.
       rd_bind (readByte buf) (\<lambda>level.
       rd_bind (readByte buf) (\<lambda>filenameLength.
       rd_bind (readString buf filenameLength) (\<lambda>filename.
       rd_bind (readWord buf) (\<lambda>crc.
       rd_bind (if js_ge level (Num 1) then readByte buf else rd_return (Num 0)) (\<lambda>os.
       rd_bind (skipExtended buf level headerSize) (\<lambda>skipped.
       (\<lambda>offset.
          if js_gt (js_add offset (Num compressedSize)) (Num (int (length buf)))
          then Inr (None, offset)
          else
           (rd_bind (readBytes buf (Num compressedSize)) (\<lambda>compressedData.
            rd_bind (rd_lift (decompress method compressedData originalSize))
              (\<lambda>decompressedData.
            rd_return (Some
              \<lparr>filename = sanitizeFilename filename, originalSize = originalSize,
               compressedSize = compressedSize,
               timestamp = dosDateTimeToDate localTime dosDate dosTime, crc = crc, method = method,
               os = os, data = decompressedData\<rparr>)))) offset)))))))))))))))) offset)"

text \<open>The loop of \<open>extractAll\<close>. A \<open>null\<close> header and an exception both leave it; it may
  also run forever, which is the value \<open>None\<close>.\<close>

partial_function (option) extractAll_loop ::
  "(Date \<Rightarrow> Date) \<Rightarrow> byte list \<Rightarrow> jsval \<Rightarrow> LHAFile list \<Rightarrow> LHAFile list option" where
  "extractAll_loop localTime buf offset files =
     (if js_lt offset (Num (int (length buf))) then
        (case readHeader localTime buf offset of
           Inl e \<Rightarrow> Some files
         | Inr (None, offset') \<Rightarrow> Some files
         | Inr (Some file, offset') \<Rightarrow>
             extractAll_loop localTime buf offset' (files @ [file]))
      else Some files)"

declare extractAll_loop.simps [code]

definition extractAll :: "(Date \<Rightarrow> Date) \<Rightarrow> byte list \<Rightarrow> LHAFile list option" where
  "extractAll localTime buf = extractAll_loop localTime buf (Num 0) []"

section \<open>Checksum properties\<close>

lemma w16_xor: "(word_of_int (js_xor a b) :: 16 word) = word_of_int a XOR word_of_int b"
  unfolding js_xor_def toInt32_def
  by (rule bit_word_eqI) (auto simp add: bit_simps)

lemma w16_shl: "(word_of_int (js_shl a k) :: 16 word) = push_bit k (word_of_int a)"
  unfolding js_shl_def toInt32_def
  by (rule bit_word_eqI) (auto simp add: bit_simps)

lemma js_and_8000: "(js_and acc 0x8000 \<noteq> 0) = bit acc 15"
proof -
  have "toInt32 0x8000 = 0x8000" by (simp add: toInt32_small)
  then have "(js_and acc 0x8000 = 0) = (toInt32 acc AND 2 ^ 15 = 0)"
    unfolding js_and_def by simp
  also have "\<dots> = (\<not> bit (toInt32 acc) 15)"
    by (rule and_exp_eq_0_iff_not_bit)
  also have "\<dots> = (\<not> bit acc 15)"
    by (simp add: toInt32_def bit_simps)
  finally show ?thesis by simp
qed

lemma w16_top: "(js_and acc 0x8000 \<noteq> 0) = bit (word_of_int acc :: 16 word) 15"
  by (simp add: js_and_8000 bit_simps)

lemma crc_shift_ref:
  "(word_of_int (crc_shift j acc) :: 16 word) = crc16_ref_shift j (word_of_int acc)"
  by (induction j arbitrary: acc) (simp_all add: w16_top w16_xor w16_shl)

lemma crc_loop_ref:
  "(word_of_int (crc_loop bs acc) :: 16 word) = crc16_ref bs (word_of_int acc)"
  by (induction bs arbitrary: acc) (simp_all add: crc_shift_ref w16_xor w16_shl)

lemma js_and_FFFF: "js_and x 0xFFFF = uint (word_of_int x :: 16 word)"
proof -
  have e: "(0xFFFF::int) = mask 16" by (simp add: mask_eq_exp_minus_1)
  have "toInt32 0xFFFF = 0xFFFF" by (simp add: toInt32_small)
  then have "js_and x 0xFFFF = take_bit 16 (toInt32 x)"
    unfolding js_and_def by (simp add: e take_bit_eq_mask)
  also have "\<dots> = take_bit 16 x"
    unfolding toInt32_def by (rule bit_eqI) (auto simp add: bit_simps)
  finally show ?thesis by (simp add: uint_word_of_int_eq)
qed

text \<open>
  C6: \<open>calculateCRC16\<close> is the reference CCITT CRC-16 (polynomial \<open>0x1021\<close>, most
  significant bit first, initial value 0) computed on a 16-bit accumulator, for every input;
  the empty buffer and the single byte \<open>0x00\<close> both give \<open>0x0000\<close>, and the check string
  \<open>123456789\<close> gives \<open>0x31C3\<close>.
\<close>

theorem calculateCRC16_is_ccitt:
  "calculateCRC16 bs = uint (crc16_ref bs 0)
   \<and> calculateCRC16 [] = 0 \<and> calculateCRC16 [0x00] = 0
   \<and> calculateCRC16 (map of_char ''123456789'') = 0x31C3"
proof -
  have ref: "calculateCRC16 xs = uint (crc16_ref xs 0)" for xs
    using crc_loop_ref [of xs 0] by (simp add: calculateCRC16_def js_and_FFFF)
  have "crc16_ref [] 0 = 0" by simp
  moreover have "crc16_ref [0x00] 0 = 0" by (simp add: numeral_nat)
  moreover have "crc16_ref (map of_char ''123456789'') 0 = 0x31C3" by code_simp
  ultimately show ?thesis by (simp add: ref)
qed

section \<open>Bitwise operators on small numbers\<close>

lemma toInt32_nonneg: "0 \<le> x \<Longrightarrow> x < 2 ^ 31 \<Longrightarrow> toInt32 x = x"
proof (rule toInt32_small)
  assume "0 \<le> x"
  have "- (2 ^ 31) \<le> (0::int)" by simp
  then show "- (2 ^ 31) \<le> x" using \<open>0 \<le> x\<close> by (rule order_trans)
qed

lemma js_shl_small:
  "0 \<le> a \<Longrightarrow> a < 2 ^ 31 \<Longrightarrow> a * 2 ^ k < 2 ^ 31 \<Longrightarrow> js_shl a k = a * 2 ^ k"
  by (simp add: js_shl_def push_bit_eq_mult toInt32_nonneg)

lemma js_or_small:
  assumes "0 \<le> lo" "lo < 2 ^ k" "lo < 2 ^ 31" "0 \<le> hi" "hi * 2 ^ k < 2 ^ 31"
  shows "js_or (hi * 2 ^ k) lo = hi * 2 ^ k + lo"
proof -
  have "0 \<le> hi * 2 ^ k" using assms(4) by simp
  then have h: "toInt32 (hi * 2 ^ k) = hi * 2 ^ k" using assms(5) by (rule toInt32_nonneg)
  have l: "toInt32 lo = lo" using assms(1,3) by (rule toInt32_nonneg)
  show ?thesis
    unfolding js_or_def h l
    using or_push_bit_add [OF assms(1,2), of hi] by (simp add: or.commute push_bit_eq_mult)
qed

lemma js_shr_small: "0 \<le> x \<Longrightarrow> x < 2 ^ 31 \<Longrightarrow> js_shr x k = x div 2 ^ k"
  by (simp add: js_shr_def toInt32_nonneg drop_bit_eq_div)

lemma js_and_mask:
  assumes "0 \<le> x" "x < 2 ^ 31" "k \<le> 30"
  shows "js_and x (2 ^ k - 1) = x mod 2 ^ k"
proof -
  have "(2::int) ^ k \<le> 2 ^ 30" using assms(3) by (intro power_increasing) auto
  then have "toInt32 (2 ^ k - 1) = 2 ^ k - 1" by (intro toInt32_nonneg) auto
  then have "js_and x (2 ^ k - 1) = x AND mask k"
    using assms(1,2) by (simp add: js_and_def toInt32_nonneg mask_eq_exp_minus_1)
  then show ?thesis by (simp add: take_bit_eq_mod flip: take_bit_eq_mask)
qed

lemma js_and_masks:
  assumes "0 \<le> x" "x < 2 ^ 31"
  shows "js_and x 0x7F = x mod 128" "js_and x 0x0F = x mod 16" "js_and x 0x1F = x mod 32"
    "js_and x 0x3F = x mod 64" "js_and x 0xFF = x mod 256"
  using js_and_mask [OF assms, of 7] js_and_mask [OF assms, of 4] js_and_mask [OF assms, of 5]
    js_and_mask [OF assms, of 6] js_and_mask [OF assms, of 8]
  by simp_all

section \<open>Timestamps\<close>

lemma pack_fields:
  assumes "0 \<le> a" "a < 128" "0 \<le> b" "b < 64" "0 \<le> c" "c < 32" "m \<le> 6" "b < 2 ^ m"
  shows "js_or (js_or (js_shl a (5 + m)) (js_shl b 5)) c = a * 2 ^ (5 + m) + b * 32 + c"
proof -
  have p: "(2::int) ^ (5 + m) \<le> 2 ^ 11" using assms(7) by (intro power_increasing) auto
  have "a * 2 ^ (5 + m) \<le> 127 * 2 ^ (5 + m)" using assms(2) by (intro mult_right_mono) auto
  also have "\<dots> \<le> 127 * 2 ^ 11" using p by (intro mult_left_mono) auto
  finally have ab: "a * 2 ^ (5 + m) \<le> 127 * 2 ^ 11" .
  have 1: "js_shl a (5 + m) = a * 2 ^ (5 + m)"
    using assms(1,2) ab by (intro js_shl_small) auto
  have 2: "js_shl b 5 = b * 32"
    using js_shl_small [of b 5] assms(3,4) by simp
  have "b * 32 < 2 ^ m * 32" using assms(8) by simp
  then have b32: "b * 32 < 2 ^ (5 + m)" by (simp add: power_add)
  have 3: "js_or (a * 2 ^ (5 + m)) (b * 32) = a * 2 ^ (5 + m) + b * 32"
    using assms(1,3,4) ab b32 by (intro js_or_small) auto
  have e: "a * 2 ^ (5 + m) + b * 32 = (a * 2 ^ m + b) * 2 ^ 5"
    by (simp add: power_add algebra_simps)
  have "a * 2 ^ (5 + m) + b * 32 \<le> 127 * 2 ^ 11 + 63 * 32" using ab assms(4) by simp
  then have 4: "js_or ((a * 2 ^ m + b) * 2 ^ 5) c = (a * 2 ^ m + b) * 2 ^ 5 + c"
    unfolding e using assms(1,3,5,6) by (intro js_or_small) auto
  show ?thesis unfolding 1 2 3 using 4 unfolding e [symmetric] .
qed

lemma unpack_fields:
  fixes a b c :: int
  assumes "0 \<le> a" "0 \<le> b" "b < 2 ^ m" "0 \<le> c" "c < 32"
  shows "(a * 2 ^ (5 + m) + b * 32 + c) div 2 ^ (5 + m) = a"
    and "(a * 2 ^ (5 + m) + b * 32 + c) div 32 mod 2 ^ m = b"
    and "(a * 2 ^ (5 + m) + b * 32 + c) mod 32 = c"
proof -
  define q where "q = a * 2 ^ m + b"
  have e: "a * 2 ^ (5 + m) + b * 32 + c = q * 32 + c"
    by (simp add: q_def power_add algebra_simps)
  have d32: "(a * 2 ^ (5 + m) + b * 32 + c) div 32 = q"
    unfolding e using assms(4,5) by simp
  show "(a * 2 ^ (5 + m) + b * 32 + c) div 32 mod 2 ^ m = b"
    unfolding d32 q_def using assms(2,3) by simp
  show "(a * 2 ^ (5 + m) + b * 32 + c) mod 32 = c"
    unfolding e using assms(4,5) by simp
  have "(2::int) ^ (5 + m) = 32 * 2 ^ m" by (simp add: power_add)
  then have "(a * 2 ^ (5 + m) + b * 32 + c) div 2 ^ (5 + m)
      = (a * 2 ^ (5 + m) + b * 32 + c) div (32 * 2 ^ m)" by simp
  also have "\<dots> = (a * 2 ^ (5 + m) + b * 32 + c) div 32 div 2 ^ m"
    by (rule zdiv_zmult2_eq) simp
  also have "\<dots> = a" unfolding d32 q_def using assms(2,3) by simp
  finally show "(a * 2 ^ (5 + m) + b * 32 + c) div 2 ^ (5 + m) = a" .
qed

lemma time_of_day_fields:
  fixes h mi s :: int
  assumes "0 \<le> h" "h \<le> 23" "0 \<le> mi" "mi \<le> 59" "0 \<le> s" "s \<le> 59"
  shows "(h * 3600 + mi * 60 + s) div 86400 = 0"
    and "(h * 3600 + mi * 60 + s) mod 86400 = h * 3600 + mi * 60 + s"
    and "(h * 3600 + mi * 60 + s) div 3600 = h"
    and "(h * 3600 + mi * 60 + s) div 60 mod 60 = mi"
    and "(h * 3600 + mi * 60 + s) mod 60 = s"
proof -
  have t: "0 \<le> h * 3600 + mi * 60 + s" "h * 3600 + mi * 60 + s < 86400"
    using assms by simp_all
  show "(h * 3600 + mi * 60 + s) div 86400 = 0" using t by simp
  show "(h * 3600 + mi * 60 + s) mod 86400 = h * 3600 + mi * 60 + s" using t by simp
  define q where "q = h * 60 + mi"
  have e: "h * 3600 + mi * 60 + s = q * 60 + s" by (simp add: q_def)
  have d60: "(h * 3600 + mi * 60 + s) div 60 = q"
    unfolding e using assms(5,6) by simp
  show "(h * 3600 + mi * 60 + s) mod 60 = s"
    unfolding e using assms(5,6) by simp
  show "(h * 3600 + mi * 60 + s) div 60 mod 60 = mi"
    unfolding d60 q_def using assms(3,4) by simp
  have "(h * 3600 + mi * 60 + s) div (60 * 60) = (h * 3600 + mi * 60 + s) div 60 div 60"
    by (rule zdiv_zmult2_eq) simp
  also have "\<dots> = h" unfolding d60 q_def using assms(3,4) by simp
  finally show "(h * 3600 + mi * 60 + s) div 3600 = h" by simp
qed

lemma new_Date_in_range:
  assumes "99 < y" "0 \<le> mo" "mo \<le> 11" "1 \<le> d" "d \<le> days_in_month y mo"
    and "0 \<le> h" "h \<le> 23" "0 \<le> mi" "mi \<le> 59" "0 \<le> s" "s \<le> 59"
  shows "new_Date localTime y mo d h mi s =
     localTime \<lparr>getFullYear = y, getMonth = mo, getDate = d, getHours = h, getMinutes = mi,
       getSeconds = s\<rparr>"
proof -
  note t = time_of_day_fields [OF assms(6-11)]
  have m: "mo div 12 = 0" "mo mod 12 = mo" using assms(2,3) by simp_all
  have c: "carry_forward y mo d = (y, mo, d)"
    using assms(5) by (subst carry_forward.simps) simp
  show ?thesis
    unfolding new_Date_def Let_def t m using assms(1,4) c by simp
qed

text \<open>
  C7: a timestamp whose year lies in 1980..2107 and whose other fields are those of a
  calendar date and time (as the getters of a \<open>Date\<close> return them), packed by
  \<open>dateToDosTime\<close> and unpacked by \<open>dosDateTimeToDate\<close>, comes back with the same year, month,
  day, hour and minute and with the second rounded down to an even number, provided the
  host's time zone does not skip that local time. Whatever the year, the packed date holds
  the year clamped to 1980..2107, less 1980, above the month and the day.
\<close>

theorem dos_time_roundtrip:
  assumes "0 \<le> getMonth d" "getMonth d \<le> 11" "1 \<le> getDate d" "getDate d \<le> 31"
    and "0 \<le> getHours d" "getHours d \<le> 23" "0 \<le> getMinutes d" "getMinutes d \<le> 59"
    and "0 \<le> getSeconds d" "getSeconds d \<le> 59"
  shows "(1980 \<le> getFullYear d \<and> getFullYear d \<le> 2107
          \<and> getDate d \<le> days_in_month (getFullYear d) (getMonth d)
          \<and> localTime (d\<lparr>getSeconds := 2 * (getSeconds d div 2)\<rparr>)
              = d\<lparr>getSeconds := 2 * (getSeconds d div 2)\<rparr>
        \<longrightarrow> dosDateTimeToDate localTime (date (dateToDosTime d)) (time (dateToDosTime d))
              = d\<lparr>getSeconds := 2 * (getSeconds d div 2)\<rparr>)
     \<and> date (dateToDosTime d)
         = (max 1980 (min 2107 (getFullYear d)) - 1980) * 512 + (getMonth d + 1) * 32
           + getDate d"
proof -
  define y where "y = max 1980 (min 2107 (getFullYear d)) - 1980"
  define s2 where "s2 = getSeconds d div 2"
  have y: "0 \<le> y" "y < 128" by (auto simp add: y_def)
  have s2: "0 \<le> s2" "s2 < 32" "s2 * 2 \<le> 59" using assms(9,10) by (auto simp add: s2_def)
  have dt: "date (dateToDosTime d) = y * 2 ^ (5 + 4) + (getMonth d + 1) * 32 + getDate d"
    using pack_fields [of y "getMonth d + 1" "getDate d" 4] y assms(1-4)
    by (simp add: dateToDosTime_def Let_def y_def)
  have tm: "time (dateToDosTime d) = getHours d * 2 ^ (5 + 6) + getMinutes d * 32 + s2"
    using pack_fields [of "getHours d" "getMinutes d" s2 6] s2 assms(5-8)
    by (simp add: dateToDosTime_def Let_def s2_def)
  define D where "D = date (dateToDosTime d)"
  define T where "T = time (dateToDosTime d)"
  have Db: "0 \<le> D" "D < 2 ^ 31" using y assms(1-4) unfolding D_def dt by simp_all
  have Tb: "0 \<le> T" "T < 2 ^ 31" using s2 assms(5-8) unfolding T_def tm by simp_all
  have Dd: "0 \<le> D div 2 ^ k" "D div 2 ^ k < 2 ^ 31" for k
  proof -
    show "0 \<le> D div 2 ^ k" using Db(1) by (simp add: pos_imp_zdiv_nonneg_iff)
    have "D div 2 ^ k \<le> D div 1" using Db(1) by (intro zdiv_mono2) auto
    then show "D div 2 ^ k < 2 ^ 31" using Db(2) by simp
  qed
  have Td: "0 \<le> T div 2 ^ k" "T div 2 ^ k < 2 ^ 31" for k
  proof -
    show "0 \<le> T div 2 ^ k" using Tb(1) by (simp add: pos_imp_zdiv_nonneg_iff)
    have "T div 2 ^ k \<le> T div 1" using Tb(1) by (intro zdiv_mono2) auto
    then show "T div 2 ^ k < 2 ^ 31" using Tb(2) by simp
  qed
  have ud: "D div 2 ^ 9 mod 128 = y" "D div 2 ^ 5 mod 16 = getMonth d + 1" "D mod 32 = getDate d"
    using unpack_fields [of y "getMonth d + 1" 4 "getDate d"] y assms(1-4)
    unfolding D_def dt by simp_all
  have ut: "T div 2 ^ 11 mod 32 = getHours d" "T div 2 ^ 5 mod 64 = getMinutes d" "T mod 32 = s2"
    using unpack_fields [of "getHours d" "getMinutes d" 6 s2] s2 assms(5-8)
    unfolding T_def tm by simp_all
  have unpack: "dosDateTimeToDate localTime D T
     = new_Date localTime (1980 + y) (getMonth d) (getDate d) (getHours d) (getMinutes d)
         (s2 * 2)"
    unfolding dosDateTimeToDate_def Let_def
    by (simp only: js_shr_small [OF Db] js_shr_small [OF Tb] js_and_masks [OF Dd]
          js_and_masks [OF Td] js_and_masks [OF Db] js_and_masks [OF Tb] ud ut) simp
  have round: "dosDateTimeToDate localTime D T = d\<lparr>getSeconds := 2 * (getSeconds d div 2)\<rparr>"
    if r: "1980 \<le> getFullYear d" "getFullYear d \<le> 2107"
      "getDate d \<le> days_in_month (getFullYear d) (getMonth d)"
      "localTime (d\<lparr>getSeconds := 2 * (getSeconds d div 2)\<rparr>)
         = d\<lparr>getSeconds := 2 * (getSeconds d div 2)\<rparr>"
  proof -
    have yy: "1980 + y = getFullYear d" using r(1,2) by (simp add: y_def)
    have "new_Date localTime (getFullYear d) (getMonth d) (getDate d) (getHours d)
            (getMinutes d) (s2 * 2)
        = localTime \<lparr>getFullYear = getFullYear d, getMonth = getMonth d, getDate = getDate d,
            getHours = getHours d, getMinutes = getMinutes d, getSeconds = s2 * 2\<rparr>"
      using r(1,3) assms s2 by (intro new_Date_in_range) auto
    also have "\<lparr>getFullYear = getFullYear d, getMonth = getMonth d, getDate = getDate d,
            getHours = getHours d, getMinutes = getMinutes d, getSeconds = s2 * 2\<rparr>
        = d\<lparr>getSeconds := 2 * (getSeconds d div 2)\<rparr>"
      by (simp add: s2_def)
    finally show ?thesis unfolding unpack yy using r(4) by simp
  qed
  show ?thesis
    using round dt unfolding D_def T_def y_def by simp
qed

definition utc :: "Date \<Rightarrow> Date" where
  \<comment> \<open>a time zone that skips no local time\<close>
  "utc d = d"

definition leap_day :: Date where
  "leap_day =
     \<lparr>getFullYear = 2024, getMonth = 1, getDate = 29, getHours = 23, getMinutes = 59,
      getSeconds = 59\<rparr>"

theorem dos_time_roundtrip_witness:
  "(0 \<le> getMonth leap_day \<and> getMonth leap_day \<le> 11 \<and> 1 \<le> getDate leap_day
    \<and> getDate leap_day \<le> 31 \<and> 0 \<le> getHours leap_day \<and> getHours leap_day \<le> 23
    \<and> 0 \<le> getMinutes leap_day \<and> getMinutes leap_day \<le> 59 \<and> 0 \<le> getSeconds leap_day
    \<and> getSeconds leap_day \<le> 59)
   \<and> (1980 \<le> getFullYear leap_day \<and> getFullYear leap_day \<le> 2107
      \<and> getDate leap_day \<le> days_in_month (getFullYear leap_day) (getMonth leap_day)
      \<and> utc (leap_day\<lparr>getSeconds := 2 * (getSeconds leap_day div 2)\<rparr>)
          = leap_day\<lparr>getSeconds := 2 * (getSeconds leap_day div 2)\<rparr>)
   \<and> dosDateTimeToDate utc (date (dateToDosTime leap_day)) (time (dateToDosTime leap_day))
       = leap_day\<lparr>getSeconds := 2 * (getSeconds leap_day div 2)\<rparr>
   \<and> leap_day\<lparr>getSeconds := 2 * (getSeconds leap_day div 2)\<rparr>
       = \<lparr>getFullYear = 2024, getMonth = 1, getDate = 29, getHours = 23, getMinutes = 59,
          getSeconds = 58\<rparr>"
proof -
  have h: "0 \<le> getMonth leap_day" "getMonth leap_day \<le> 11" "1 \<le> getDate leap_day"
    "getDate leap_day \<le> 31" "0 \<le> getHours leap_day" "getHours leap_day \<le> 23"
    "0 \<le> getMinutes leap_day" "getMinutes leap_day \<le> 59" "0 \<le> getSeconds leap_day"
    "getSeconds leap_day \<le> 59"
    by (simp_all add: leap_day_def)
  have r: "1980 \<le> getFullYear leap_day \<and> getFullYear leap_day \<le> 2107
      \<and> getDate leap_day \<le> days_in_month (getFullYear leap_day) (getMonth leap_day)
      \<and> utc (leap_day\<lparr>getSeconds := 2 * (getSeconds leap_day div 2)\<rparr>)
          = leap_day\<lparr>getSeconds := 2 * (getSeconds leap_day div 2)\<rparr>"
    by (simp add: leap_day_def utc_def days_in_month_def leap_year_def)
  have e: "leap_day\<lparr>getSeconds := 2 * (getSeconds leap_day div 2)\<rparr>
       = \<lparr>getFullYear = 2024, getMonth = 1, getDate = 29, getHours = 23, getMinutes = 59,
          getSeconds = 58\<rparr>"
    by (simp add: leap_day_def)
  from dos_time_roundtrip [OF h, of utc] r h e show ?thesis by blast
qed

section \<open>The output buffer of the decompression routines\<close>

definition zero_tail :: "'a decomp_state_scheme \<Rightarrow> bool" where
  \<comment> \<open>nothing has been written at or after \<open>outPos\<close>\<close>
  "zero_tail s = (\<forall>i. outPos s \<le> i \<and> i < length (output s) \<longrightarrow> output s ! i = 0)"

lemma getBit_output:
  "output (snd (getBit c s)) = output s" "dictionary (snd (getBit c s)) = dictionary s"
  "dictPos (snd (getBit c s)) = dictPos s"
  by (simp_all add: getBit_def Let_def)

lemma getBits_loop_output:
  "output (snd (getBits_loop k c i v s)) = output s"
  by (induction k arbitrary: i v s) (simp_all add: split_beta getBit_output)

lemma getBits_output: "output (snd (getBits c k s)) = output s"
  by (simp add: getBits_def getBits_loop_output)

lemma lh1_emit_buffer:
  "length (output (lh1_emit b s)) = length (output s)"
  "zero_tail s \<Longrightarrow> zero_tail (lh1_emit b s)"
  by (auto simp add: lh1_emit_def zero_tail_def)

lemma lh1_match_buffer:
  "length (output (lh1_match k n p s)) = length (output s)"
  "zero_tail s \<Longrightarrow> zero_tail (lh1_match k n p s)"
  by (induction k arbitrary: s) (simp_all add: lh1_emit_buffer)

lemma zero_tail_cong:
  "output t = output s \<Longrightarrow> outPos t = outPos s \<Longrightarrow> zero_tail t = zero_tail s"
  by (simp add: zero_tail_def)

lemma lh1_token_buffer:
  "length (output (lh1_token c n s)) = length (output s)"
  "zero_tail s \<Longrightarrow> zero_tail (lh1_token c n s)"
proof -
  obtain flag s1 where g1: "getBit c s = (flag, s1)" by (cases "getBit c s")
  obtain byte s2 where g2: "getBits c 8 s1 = (byte, s2)" by (cases "getBits c 8 s1")
  obtain position s3 where g3: "getBits c 12 s1 = (position, s3)" by (cases "getBits c 12 s1")
  obtain len4 s4 where g4: "getBits c 4 s3 = (len4, s4)" by (cases "getBits c 4 s3")
  have o1: "output s1 = output s" "outPos s1 = outPos s"
    using getBit_output(1) [of c s] outPos_getBit [of c s] g1 by simp_all
  have o2: "output s2 = output s" "outPos s2 = outPos s"
    using getBits_output [of c 8 s1] outPos_getBits [of c 8 s1] g2 o1 by simp_all
  have o3: "output s3 = output s" "outPos s3 = outPos s"
    using getBits_output [of c 12 s1] outPos_getBits [of c 12 s1] g3 o1 by simp_all
  have o4: "output s4 = output s" "outPos s4 = outPos s"
    using getBits_output [of c 4 s3] outPos_getBits [of c 4 s3] g4 o3 by simp_all
  have e: "lh1_token c n s =
      (if flag \<noteq> 0 then lh1_emit byte s2 else lh1_match (nat (len4 + 3)) n position s4)"
    by (simp add: lh1_token_def g1 g2 g3 g4)
  show "length (output (lh1_token c n s)) = length (output s)"
    unfolding e by (simp add: lh1_emit_buffer lh1_match_buffer o2 o4)
  assume z: "zero_tail s"
  have "zero_tail s2" "zero_tail s4"
    using z zero_tail_cong [OF o2] zero_tail_cong [OF o4] by simp_all
  then show "zero_tail (lh1_token c n s)"
    unfolding e by (simp add: lh1_emit_buffer lh1_match_buffer)
qed

lemma lh1_loop_buffer:
  "length (output (lh1_loop c n s)) = length (output s)"
  "zero_tail s \<Longrightarrow> zero_tail (lh1_loop c n s)"
proof (induction c n s rule: lh1_loop.induct)
  case (1 c n s)
  {
    case 1
    show ?case using "1.IH"(1) by (subst lh1_loop.simps) (simp add: lh1_token_buffer)
  next
    case 2
    then show ?case using "1.IH"(2) by (subst lh1_loop.simps) (simp add: lh1_token_buffer)
  }
qed

lemma lh5_emit_buffer:
  "length (output (lh5_emit b s)) = length (output s)"
  "zero_tail s \<Longrightarrow> zero_tail (lh5_emit b s)"
  by (auto simp add: lh5_emit_def zero_tail_def)

lemma lh5_match_buffer:
  "length (output (lh5_match k n p s)) = length (output s)"
  "zero_tail s \<Longrightarrow> zero_tail (lh5_match k n p s)"
  by (induction k arbitrary: s) (simp_all add: lh5_emit_buffer)

lemma lh5_group_buffer:
  "length (output (lh5_group c n flag bitno s)) = length (output s)"
  "zero_tail s \<Longrightarrow> zero_tail (lh5_group c n flag bitno s)"
proof (induction c n flag bitno s rule: lh5_group.induct)
  case (1 c n flag bitno s)
  let ?lit = "lh5_emit (uint (c ! inPos s)) (s\<lparr>inPos := inPos s + 1\<rparr>)"
  let ?mat = "lh5_match (nat (js_and (uint (c ! (inPos s + 1))) 0x0F + 3)) n
      (js_or (js_shl (js_and (uint (c ! (inPos s + 1))) 0xF0) 4) (uint (c ! inPos s)))
      (s\<lparr>inPos := inPos s + 2\<rparr>)"
  have zs: "zero_tail (s\<lparr>inPos := k\<rparr>) = zero_tail s" for k
    by (simp add: zero_tail_def)
  consider (stop) "\<not> (bitno < 8 \<and> outPos s < n \<and> inPos s < length c)"
    | (lit) "bitno < 8 \<and> outPos s < n \<and> inPos s < length c" "js_and flag (js_shl 1 bitno) \<noteq> 0"
    | (brk) "bitno < 8 \<and> outPos s < n \<and> inPos s < length c" "\<not> js_and flag (js_shl 1 bitno) \<noteq> 0"
        "inPos s + 1 \<ge> length c"
    | (mat) "bitno < 8 \<and> outPos s < n \<and> inPos s < length c" "\<not> js_and flag (js_shl 1 bitno) \<noteq> 0"
        "\<not> inPos s + 1 \<ge> length c"
    by blast
  then have e: "lh5_group c n flag bitno s = s
      \<or> (bitno < 8 \<and> outPos s < n \<and> inPos s < length c \<and> js_and flag (js_shl 1 bitno) \<noteq> 0
         \<and> lh5_group c n flag bitno s = lh5_group c n flag (bitno + 1) ?lit)
      \<or> (bitno < 8 \<and> outPos s < n \<and> inPos s < length c \<and> \<not> js_and flag (js_shl 1 bitno) \<noteq> 0
         \<and> \<not> inPos s + 1 \<ge> length c
         \<and> lh5_group c n flag bitno s = lh5_group c n flag (bitno + 1) ?mat)"
  proof cases
    case stop
    then show ?thesis by (subst lh5_group.simps) auto
  next
    case lit
    then show ?thesis by (subst lh5_group.simps) simp
  next
    case brk
    then show ?thesis by (subst lh5_group.simps) simp
  next
    case mat
    then show ?thesis by (subst (2) lh5_group.simps) (simp add: Let_def)
  qed
  {
    case 1
    from e show ?case
    proof (elim disjE conjE)
      assume "lh5_group c n flag bitno s = s"
      then show ?thesis by simp
    next
      assume a: "bitno < 8" "outPos s < n" "inPos s < length c" "js_and flag (js_shl 1 bitno) \<noteq> 0"
        and b: "lh5_group c n flag bitno s = lh5_group c n flag (bitno + 1) ?lit"
      show ?thesis
        unfolding b using "1.IH"(1) a by (simp add: lh5_emit_buffer)
    next
      assume a: "bitno < 8" "outPos s < n" "inPos s < length c"
          "\<not> js_and flag (js_shl 1 bitno) \<noteq> 0" "\<not> inPos s + 1 \<ge> length c"
        and b: "lh5_group c n flag bitno s = lh5_group c n flag (bitno + 1) ?mat"
      have c': "bitno < 8 \<and> outPos s < n \<and> inPos s < length c" using a by simp
      show ?thesis
        unfolding b using "1.IH"(3) [OF c' a(4) a(5) refl refl refl refl refl]
        by (simp add: lh5_match_buffer)
    qed
  next
    case 2
    from e show ?case
    proof (elim disjE conjE)
      assume "lh5_group c n flag bitno s = s"
      then show ?thesis using 2 by simp
    next
      assume a: "bitno < 8" "outPos s < n" "inPos s < length c" "js_and flag (js_shl 1 bitno) \<noteq> 0"
        and b: "lh5_group c n flag bitno s = lh5_group c n flag (bitno + 1) ?lit"
      have "zero_tail ?lit" using 2 by (simp add: lh5_emit_buffer zs)
      then show ?thesis
        unfolding b using "1.IH"(2) a by simp
    next
      assume a: "bitno < 8" "outPos s < n" "inPos s < length c"
          "\<not> js_and flag (js_shl 1 bitno) \<noteq> 0" "\<not> inPos s + 1 \<ge> length c"
        and b: "lh5_group c n flag bitno s = lh5_group c n flag (bitno + 1) ?mat"
      have c': "bitno < 8 \<and> outPos s < n \<and> inPos s < length c" using a by simp
      have "zero_tail ?mat" using 2 by (simp add: lh5_match_buffer zs)
      then show ?thesis
        unfolding b using "1.IH"(4) [OF c' a(4) a(5) refl refl refl refl refl]
        by simp
    qed
  }
qed

lemma lh5_loop_buffer:
  "length (output (lh5_loop c n s)) = length (output s)"
  "zero_tail s \<Longrightarrow> zero_tail (lh5_loop c n s)"
proof (induction c n s rule: lh5_loop.induct)
  case (1 c n s)
  have zs: "zero_tail (s\<lparr>inPos := k\<rparr>) = zero_tail s" for k
    by (simp add: zero_tail_def)
  {
    case 1
    show ?case using "1.IH"(1) by (subst lh5_loop.simps) (simp add: lh5_group_buffer)
  next
    case 2
    then show ?case using "1.IH"(2)
      by (subst lh5_loop.simps) (simp add: lh5_group_buffer zs)
  }
qed

definition lh1_final :: "byte list \<Rightarrow> nat \<Rightarrow> lh1_state" where
  \<comment> \<open>the state in which the loop of \<open>decompressLH1\<close> ends\<close>
  "lh1_final c n =
     lh1_loop c n \<lparr>output = replicate n 0, outPos = 0, inPos = 0, dictionary = replicate 4096 0,
       dictPos = 0, bitBuffer = 0, bitCount = 0\<rparr>"

definition lh5_final :: "byte list \<Rightarrow> nat \<Rightarrow> lh5_state" where
  "lh5_final c n =
     lh5_loop c n \<lparr>output = replicate n 0, outPos = 0, inPos = 0, window = replicate 8192 0,
       windowPos = 0\<rparr>"

lemma decompressLH1_final:
  "decompressLH1 c n = (if n < 0 then Inl RangeError else Inr (output (lh1_final c (nat n))))"
  by (simp add: decompressLH1_def lh1_final_def)

lemma decompressLH5_final:
  "decompressLH5 c n = (if n < 0 then Inl RangeError else Inr (output (lh5_final c (nat n))))"
  by (simp add: decompressLH5_def lh5_final_def)

lemma lh1_final_buffer: "length (output (lh1_final c n)) = n" "zero_tail (lh1_final c n)"
proof -
  show "length (output (lh1_final c n)) = n"
    unfolding lh1_final_def by (simp add: lh1_loop_buffer)
  show "zero_tail (lh1_final c n)"
    unfolding lh1_final_def by (rule lh1_loop_buffer) (simp add: zero_tail_def)
qed

lemma lh5_final_buffer: "length (output (lh5_final c n)) = n" "zero_tail (lh5_final c n)"
proof -
  show "length (output (lh5_final c n)) = n"
    unfolding lh5_final_def by (simp add: lh5_loop_buffer)
  show "zero_tail (lh5_final c n)"
    unfolding lh5_final_def by (rule lh5_loop_buffer) (simp add: zero_tail_def)
qed

lemma decompressLH1_length: "decompressLH1 c n = Inr out \<Longrightarrow> int (length out) = n"
  by (auto simp add: decompressLH1_final lh1_final_buffer split: if_splits)

lemma decompressLH5_length: "decompressLH5 c n = Inr out \<Longrightarrow> int (length out) = n"
  by (auto simp add: decompressLH5_final lh5_final_buffer split: if_splits)

definition lz_methods :: "jsstring set" where
  "lz_methods = {lit ''-lh1-'', lit ''-lh4-'', lit ''-lh5-'', lit ''-lh6-'', lit ''-lh7-''}"

lemma decompress_lz_length:
  "decompress m c n = Inr out \<Longrightarrow> m \<in> lz_methods \<Longrightarrow> int (length out) = n"
  by (auto simp add: decompress_def lz_methods_def lit_def
        dest: decompressLH1_length decompressLH5_length split: if_splits)


lemma rd_bind_Inr:
  "rd_bind m f offset = Inr r \<Longrightarrow> \<exists>x offset1. m offset = Inr (x, offset1) \<and> f x offset1 = Inr r"
  by (auto simp add: rd_bind_def split: sum.splits)

lemma readHeader_entry:
  assumes "readHeader localTime buf offset = Inr (Some e, offset')"
  shows "\<exists>c. decompress (method e) c (originalSize e) = Inr (data e)"
  using assms unfolding readHeader_def
  by (auto simp add: rd_return_def rd_lift_def Let_def
        dest!: rd_bind_Inr split: if_splits sum.splits) blast+

lemma extractAll_loop_entries:
  assumes r: "extractAll_loop localTime buf offset files = Some result"
    and h: "\<And>tz b e off off'. readHeader tz b off = Inr (Some e, off') \<Longrightarrow> P e"
  shows "(\<forall>e \<in> set files. P e) \<longrightarrow> (\<forall>e \<in> set result. P e)"
proof (rule extractAll_loop.raw_induct
    [where P = "\<lambda>tz b off fs res. (\<forall>e \<in> set fs. P e) \<longrightarrow> (\<forall>e \<in> set res. P e)", OF _ r])
  fix loop :: "(Date \<Rightarrow> Date) \<Rightarrow> byte list \<Rightarrow> jsval \<Rightarrow> LHAFile list \<Rightarrow> LHAFile list option"
    and tz b off fs res
  assume ih: "\<And>tz b off fs res. loop tz b off fs = Some res \<Longrightarrow>
      (\<forall>e \<in> set fs. P e) \<longrightarrow> (\<forall>e \<in> set res. P e)"
    and step: "(if js_lt off (Num (int (length b)))
      then case readHeader tz b off of Inl e \<Rightarrow> Some fs
           | Inr (None, offset') \<Rightarrow> Some fs
           | Inr (Some file, offset') \<Rightarrow> loop tz b offset' (fs @ [file])
      else Some fs) = Some res"
  show "(\<forall>e \<in> set fs. P e) \<longrightarrow> (\<forall>e \<in> set res. P e)"
  proof (cases "js_lt off (Num (int (length b)))")
    case False
    with step show ?thesis by simp
  next
    case True
    show ?thesis
    proof (cases "readHeader tz b off")
      case (Inl e)
      with step True show ?thesis by simp
    next
      case (Inr p)
      obtain fo off' where p: "p = (fo, off')" by (cases p)
      show ?thesis
      proof (cases fo)
        case None
        with step True Inr p show ?thesis by simp
      next
        case (Some f)
        with step True Inr p have l: "loop tz b off' (fs @ [f]) = Some res" by simp
        have "P f" using h Inr p Some by blast
        with ih [OF l] show ?thesis by simp
      qed
    qed
  qed
qed

lemma extractAll_entries:
  assumes "extractAll localTime buf = Some result" "e \<in> set result"
    and "\<And>tz b e off off'. readHeader tz b off = Inr (Some e, off') \<Longrightarrow> P e"
  shows "P e"
proof -
  from assms(1) have "extractAll_loop localTime buf (Num 0) [] = Some result"
    by (simp add: extractAll_def)
  from extractAll_loop_entries [of localTime buf "Num 0" "[]" result P, OF this assms(3)] assms(2)
  show ?thesis by simp
qed

text \<open>
  C10: every entry \<open>extractAll\<close> returns with method \<open>-lh1-\<close>, \<open>-lh4-\<close>, \<open>-lh5-\<close>, \<open>-lh6-\<close> or
  \<open>-lh7-\<close> has data of exactly \<open>originalSize\<close> bytes; and both decompression routines return
  a buffer of exactly the size asked for, in which every byte at or after the number of
  bytes produced (the final \<open>outPos\<close>) is zero: a compressed stream that ends early leaves a
  zero tail, not a shorter buffer.
\<close>

theorem lz_data_length_is_originalSize:
  "(extractAll localTime buf = Some files \<longrightarrow>
      (\<forall>e \<in> set files. method e \<in> lz_methods \<longrightarrow> int (length (data e)) = originalSize e))
   \<and> (decompressLH1 c n = Inr out1 \<longrightarrow>
        int (length out1) = n
        \<and> (\<forall>i. outPos (lh1_final c (nat n)) \<le> i \<and> i < length out1 \<longrightarrow> out1 ! i = 0))
   \<and> (decompressLH5 c n = Inr out5 \<longrightarrow>
        int (length out5) = n
        \<and> (\<forall>i. outPos (lh5_final c (nat n)) \<le> i \<and> i < length out5 \<longrightarrow> out5 ! i = 0))"
proof (intro conjI impI ballI)
  fix e
  assume x: "extractAll localTime buf = Some files" "e \<in> set files" and m: "method e \<in> lz_methods"
  have "method e \<in> lz_methods \<longrightarrow> int (length (data e)) = originalSize e"
  proof (rule extractAll_entries [OF x])
    fix tz b e off off'
    assume "readHeader tz b off = Inr (Some e, off')"
    from readHeader_entry [OF this] decompress_lz_length
    show "method e \<in> lz_methods \<longrightarrow> int (length (data e)) = originalSize e" by blast
  qed
  with m show "int (length (data e)) = originalSize e" by simp
next
  assume d: "decompressLH1 c n = Inr out1"
  then show "int (length out1) = n" by (rule decompressLH1_length)
  from d have o: "out1 = output (lh1_final c (nat n))"
    by (simp add: decompressLH1_final split: if_splits)
  show "\<forall>i. outPos (lh1_final c (nat n)) \<le> i \<and> i < length out1 \<longrightarrow> out1 ! i = 0"
    using lh1_final_buffer(2) [of c "nat n"] unfolding o zero_tail_def .
next
  assume d: "decompressLH5 c n = Inr out5"
  then show "int (length out5) = n" by (rule decompressLH5_length)
  from d have o: "out5 = output (lh5_final c (nat n))"
    by (simp add: decompressLH5_final split: if_splits)
  show "\<forall>i. outPos (lh5_final c (nat n)) \<le> i \<and> i < length out5 \<longrightarrow> out5 ! i = 0"
    using lh5_final_buffer(2) [of c "nat n"] unfolding o zero_tail_def .
qed

definition lz_archive :: "byte list" where
  "lz_archive =
     [23, 0] @ utf8_encode (lit ''-lh5-'') @ [4, 0, 0, 0] @ [8, 0, 0, 0] @ [0, 0] @ [0x21, 0]
       @ [0x20, 0, 1] @ utf8_encode (lit ''a'') @ [0, 0] @ [0x03, 0x41, 0x42, 0x02]
     @ [23, 0] @ utf8_encode (lit ''-lhd-'') @ [0, 0, 0, 0] @ [0, 0, 0, 0] @ [0, 0] @ [0x21, 0]
       @ [0x20, 0, 1] @ utf8_encode (lit ''d'') @ [0, 0]
     @ [0]"

definition lz_entry :: LHAFile where
  "lz_entry =
     \<lparr>filename = lit ''a'', originalSize = 8, compressedSize = 4,
      timestamp = \<lparr>getFullYear = 1980, getMonth = 0, getDate = 1, getHours = 0,
                   getMinutes = 0, getSeconds = 0\<rparr>,
      crc = 0, method = lit ''-lh5-'', os = Num 0, data = [0x41, 0x42, 0, 0, 0, 0, 0, 0]\<rparr>"

definition dir_entry :: LHAFile where
  "dir_entry =
     \<lparr>filename = lit ''d'', originalSize = 0, compressedSize = 0,
      timestamp = \<lparr>getFullYear = 1980, getMonth = 0, getDate = 1, getHours = 0,
                   getMinutes = 0, getSeconds = 0\<rparr>,
      crc = 0, method = lit ''-lhd-'', os = Num 0, data = []\<rparr>"

lemma extractAll_lz_archive: "extractAll utc lz_archive = Some [lz_entry, dir_entry]"
  by code_simp

lemma lz_entry_fields:
  "method lz_entry \<in> lz_methods" "int (length (data lz_entry)) = originalSize lz_entry"
  "method dir_entry = lit ''-lhd-''" "data dir_entry = []"
  by (simp_all add: lz_entry_def dir_entry_def lz_methods_def)

lemma lh1_short_stream:
  "decompressLH1 [0x83, 0x0A, 0x01] 5 = Inr [0x41, 0x42, 0, 0, 0]"
  "outPos (lh1_final [0x83, 0x0A, 0x01] (nat 5)) = 2"
  by code_simp+

lemma lh5_short_stream:
  "decompressLH5 [0x03, 0x41, 0x42, 0x02] 8 = Inr [0x41, 0x42, 0, 0, 0, 0, 0, 0]"
  "outPos (lh5_final [0x03, 0x41, 0x42, 0x02] (nat 8)) = 2"
  by code_simp+

theorem lz_data_length_is_originalSize_witness:
  "extractAll utc lz_archive = Some [lz_entry, dir_entry]
   \<and> lz_entry \<in> set [lz_entry, dir_entry] \<and> method lz_entry \<in> lz_methods
   \<and> int (length (data lz_entry)) = originalSize lz_entry
   \<and> decompressLH1 [0x83, 0x0A, 0x01] 5 = Inr [0x41, 0x42, 0, 0, 0]
   \<and> outPos (lh1_final [0x83, 0x0A, 0x01] (nat 5)) \<le> 2
   \<and> (2::nat) < length [0x41, 0x42, 0, 0, 0 :: byte]
   \<and> [0x41, 0x42, 0, 0, 0 :: byte] ! 2 = 0
   \<and> decompressLH5 [0x03, 0x41, 0x42, 0x02] 8 = Inr [0x41, 0x42, 0, 0, 0, 0, 0, 0]
   \<and> outPos (lh5_final [0x03, 0x41, 0x42, 0x02] (nat 8)) \<le> 7
   \<and> (7::nat) < length [0x41, 0x42, 0, 0, 0, 0, 0, 0 :: byte]
   \<and> [0x41, 0x42, 0, 0, 0, 0, 0, 0 :: byte] ! 7 = 0"
proof -
  note t = lz_data_length_is_originalSize
    [of utc lz_archive "[lz_entry, dir_entry]" "[0x83, 0x0A, 0x01]" 5 "[0x41, 0x42, 0, 0, 0]"
      "[0x41, 0x42, 0, 0, 0, 0, 0, 0]"]
  note u = lz_data_length_is_originalSize
    [of utc lz_archive "[lz_entry, dir_entry]" "[0x03, 0x41, 0x42, 0x02]" 8
      "[0x41, 0x42, 0, 0, 0]" "[0x41, 0x42, 0, 0, 0, 0, 0, 0]"]
  have m: "lz_entry \<in> set [lz_entry, dir_entry]" by simp
  have 1: "int (length (data lz_entry)) = originalSize lz_entry"
    using t extractAll_lz_archive m lz_entry_fields(1) by blast
  have 2: "[0x41, 0x42, 0, 0, 0 :: byte] ! 2 = 0"
    using t lh1_short_stream by (simp del: nth_Cons_numeral)
  have 3: "[0x41, 0x42, 0, 0, 0, 0, 0, 0 :: byte] ! 7 = 0"
    using u lh5_short_stream by (simp del: nth_Cons_numeral)
  show ?thesis
    using extractAll_lz_archive m lz_entry_fields(1) 1 2 3 lh1_short_stream lh5_short_stream
    by simp
qed












section \<open>The header checksum\<close>

lemma sum_bytes_bounds:
  "0 \<le> (\<Sum>i \<leftarrow> xs. uint ((h :: byte list) ! i))
   \<and> (\<Sum>i \<leftarrow> xs. uint (h ! i)) \<le> 255 * int (length xs)"
proof (induction xs)
  case Nil
  then show ?case by simp
next
  case (Cons x xs)
  have "uint (h ! x) \<le> 255" using uint_bounded [of "h ! x"] by simp
  with Cons show ?case by (simp add: algebra_simps)
qed

lemma length_writeWord [simp]: "length (writeWord v) = 2"
  by (simp add: writeWord_def)

lemma length_writeDWord [simp]: "length (writeDWord v) = 4"
  by (simp add: writeDWord_def)

lemma length_method_tag [simp]: "length (utf8_encode (lit ''-lh0-'')) = 5"
  by code_simp

lemma length_fileHeader:
  "length (fileHeader now f) = 24 + min (length (utf8_encode (input_filename f))) 255"
  by (simp add: fileHeader_def Let_def)

lemma fileHeader_checksum:
  "fileHeader now f ! 1
   = word_of_int ((\<Sum>i \<leftarrow> [2 ..< length (fileHeader now f)]. uint (fileHeader now f ! i)) mod 256)"
proof -
  define fl where "fl = min (length (utf8_encode (input_filename f))) 255"
  define ts where "ts = (case input_timestamp f of Some t \<Rightarrow> t | None \<Rightarrow> now)"
  define h0 where "h0 =
     [of_nat (2 + 5 + 4 + 4 + 2 + 2 + 1 + 1 + 1 + fl + 2 - 2), 0 :: byte]
      @ utf8_encode (lit ''-lh0-'') @ writeDWord (int (length (input_data f)))
      @ writeDWord (int (length (input_data f))) @ writeWord (time (dateToDosTime ts))
      @ writeWord (date (dateToDosTime ts))
      @ [0x20, 0x00, of_nat fl] @ take fl (utf8_encode (input_filename f))
      @ writeWord (calculateCRC16 (input_data f))"
  have len: "length h0 = 24 + fl" by (simp add: h0_def fl_def)
  have fh: "fileHeader now f = h0[1 := word_of_int (calculateHeaderChecksum h0 2 (22 + fl))]"
    by (simp add: fileHeader_def Let_def h0_def fl_def ts_def)
  have same: "(\<Sum>i \<leftarrow> [2 ..< 24 + fl]. uint (fileHeader now f ! i))
      = (\<Sum>i \<leftarrow> [2 ..< 24 + fl]. uint (h0 ! i))"
    unfolding fh by (rule arg_cong [where f = sum_list], rule map_cong) auto
  have b: "0 \<le> (\<Sum>i \<leftarrow> [2 ..< 24 + fl]. uint (h0 ! i))"
    "(\<Sum>i \<leftarrow> [2 ..< 24 + fl]. uint (h0 ! i)) < 2 ^ 31"
  proof -
    note s = sum_bytes_bounds [of h0 "[2 ..< 24 + fl]"]
    show "0 \<le> (\<Sum>i \<leftarrow> [2 ..< 24 + fl]. uint (h0 ! i))" using s by simp
    have "fl \<le> 255" by (simp add: fl_def)
    then have "255 * int (length [2 ..< 24 + fl]) \<le> 255 * 277" by simp
    with s show "(\<Sum>i \<leftarrow> [2 ..< 24 + fl]. uint (h0 ! i)) < 2 ^ 31" by simp
  qed
  have "calculateHeaderChecksum h0 2 (22 + fl)
      = (\<Sum>i \<leftarrow> [2 ..< 24 + fl]. uint (h0 ! i)) mod 256"
    using js_and_masks(5) [OF b] by (simp add: calculateHeaderChecksum_def len)
  then have "fileHeader now f ! 1
      = word_of_int ((\<Sum>i \<leftarrow> [2 ..< 24 + fl]. uint (h0 ! i)) mod 256)"
    unfolding fh using len by simp
  then show ?thesis
    using same length_fileHeader [of now f] by (simp add: fl_def)
qed

definition long_name_input :: LHAFileInput where
  \<comment> \<open>a file named by 234 letters \<open>a\<close>, without data\<close>
  "long_name_input =
     \<lparr>input_filename = replicate 234 0x61, input_data = [], input_timestamp = Some leap_day\<rparr>"

text \<open>
  C5 at a filename of 234 bytes: the header size is 256, the byte written at offset 0 is 0,
  and the checksum byte is 3, the sum of all 256 bytes from offset 2 on; the sum over the
  range the byte at offset 0 gives, which is empty, is 0.
\<close>

theorem long_name_header_checksum:
  "length (fileHeader leap_day long_name_input) = 258
   \<and> fileHeader leap_day long_name_input ! 0 = 0
   \<and> fileHeader leap_day long_name_input ! 1 = 3
   \<and> (\<Sum>i \<leftarrow> [2 ..< 258]. uint (fileHeader leap_day long_name_input ! i)) mod 256 = 3
   \<and> (\<Sum>i \<leftarrow> [2 ..< 2 + unat (fileHeader leap_day long_name_input ! 0)].
          uint (fileHeader leap_day long_name_input ! i)) mod 256 = 0"
  by code_simp

text \<open>The match of the specification: the bytes are read from the referenced position
  on, one position further at every byte, in the circular dictionary.\<close>

fun lh1_match_spec :: "nat \<Rightarrow> nat \<Rightarrow> int \<Rightarrow> lh1_state \<Rightarrow> lh1_state" where
  "lh1_match_spec 0 n position s = s"
| "lh1_match_spec (Suc k) n position s =
     (if outPos s < n
      then lh1_match_spec k n ((position + 1) mod 4096)
             (lh1_emit (u8_get (dictionary s) position) s)
      else s)"

definition lh1_after_AB :: lh1_state where
  \<comment> \<open>the state of \<open>decompressLH1\<close>, asked for 5 bytes, after the literals \<open>0x41\<close> and \<open>0x42\<close>\<close>
  "lh1_after_AB =
     lh1_emit 0x42 (lh1_emit 0x41
       \<lparr>output = replicate 5 0, outPos = 0, inPos = 0, dictionary = replicate 4096 0,
        dictPos = 0, bitBuffer = 0, bitCount = 0\<rparr>)"

text \<open>
  C4 at the stream \<open>83 0A 01 00\<close>, which holds the literal \<open>0x41\<close>, the literal \<open>0x42\<close> and a
  match of position 0 and length 3: \<open>decompressLH1\<close> returns \<open>41 42 41 41 41\<close>, the match
  being three copies of the byte at position 0; copying three bytes from position 0 on
  gives \<open>41 42 41 42 41\<close>.
\<close>

theorem lh1_match_repeats_one_byte:
  "decompressLH1 [0x83, 0x0A, 0x01, 0x00] 5 = Inr [0x41, 0x42, 0x41, 0x41, 0x41]
   \<and> output (lh1_match 3 5 0 lh1_after_AB) = [0x41, 0x42, 0x41, 0x41, 0x41]
   \<and> output (lh1_match_spec 3 5 0 lh1_after_AB) = [0x41, 0x42, 0x41, 0x42, 0x41]"
  by code_simp

definition oversize_archive :: "byte list" where
  \<comment> \<open>one level-0 \<open>-lh0-\<close> header whose compressed-size field is \<open>FF FF FF FF\<close> (4294967295)
    and whose original-size field is \<open>00 00 00 80\<close> (2147483648), and the end marker\<close>
  "oversize_archive =
     [22, 0] @ utf8_encode (lit ''-lh0-'') @ [0xFF, 0xFF, 0xFF, 0xFF] @ [0, 0, 0, 0x80] @ [0, 0]
       @ [0x21, 0] @ [0x20, 0, 0] @ [0, 0]
     @ [0]"

definition oversize_entry :: LHAFile where
  "oversize_entry =
     \<lparr>filename = lit ''unnamed'', originalSize = - 2147483648, compressedSize = - 1,
      timestamp = \<lparr>getFullYear = 1980, getMonth = 0, getDate = 1, getHours = 0,
                   getMinutes = 0, getSeconds = 0\<rparr>,
      crc = 0, method = lit ''-lh0-'', os = Num 0, data = []\<rparr>"

text \<open>
  C3 at a header that declares a compressed size of 4294967295 bytes and an original size
  of 2 GiB in a 25-byte archive: \<open>readDWord\<close> returns both as negative numbers, the two size
  checks pass, and the header is returned as an entry.
\<close>

theorem oversize_header_is_accepted:
  "readDWord oversize_archive (Num 7) = Inr (- 1, Num 11)
   \<and> readDWord oversize_archive (Num 11) = Inr (- 2147483648, Num 15)
   \<and> readHeader utc oversize_archive (Num 0) = Inr (Some oversize_entry, Num 23)
   \<and> extractAll utc oversize_archive = Some [oversize_entry]"
  by code_simp

definition loop_archive :: "byte list" where
  \<comment> \<open>one level-0 \<open>-lh0-\<close> header of 24 bytes whose compressed-size field is \<open>E8 FF FF FF\<close>
    (4294967272)\<close>
  "loop_archive =
     [22, 0] @ utf8_encode (lit ''-lh0-'') @ [0xE8, 0xFF, 0xFF, 0xFF] @ [0, 0, 0, 0] @ [0, 0]
       @ [0x21, 0] @ [0x20, 0, 0] @ [0, 0]"

definition loop_entry :: LHAFile where
  "loop_entry =
     \<lparr>filename = lit ''unnamed'', originalSize = 0, compressedSize = - 24,
      timestamp = \<lparr>getFullYear = 1980, getMonth = 0, getDate = 1, getHours = 0,
                   getMinutes = 0, getSeconds = 0\<rparr>,
      crc = 0, method = lit ''-lh0-'', os = Num 0, data = []\<rparr>"

lemma readHeader_loop_archive:
  "readHeader utc loop_archive (Num 0) = Inr (Some loop_entry, Num 0)"
  by code_simp

lemma loop_archive_length: "js_lt (Num 0) (Num (int (length loop_archive)))"
  by code_simp

lemma extractAll_loop_archive_never_returns:
  "extractAll_loop tz buf offset files = Some result \<Longrightarrow>
   \<not> (tz = utc \<and> buf = loop_archive \<and> offset = Num 0)"
proof (rule extractAll_loop.raw_induct
    [where P = "\<lambda>tz buf offset files result. \<not> (tz = utc \<and> buf = loop_archive \<and> offset = Num 0)"])
  fix loop :: "(Date \<Rightarrow> Date) \<Rightarrow> byte list \<Rightarrow> jsval \<Rightarrow> LHAFile list \<Rightarrow> LHAFile list option"
    and tz b off fs res
  assume ih: "\<And>tz b off fs res. loop tz b off fs = Some res \<Longrightarrow>
      \<not> (tz = utc \<and> b = loop_archive \<and> off = Num 0)"
    and step: "(if js_lt off (Num (int (length b)))
      then case readHeader tz b off of Inl e \<Rightarrow> Some fs
           | Inr (None, offset') \<Rightarrow> Some fs
           | Inr (Some file, offset') \<Rightarrow> loop tz b offset' (fs @ [file])
      else Some fs) = Some res"
  show "\<not> (tz = utc \<and> b = loop_archive \<and> off = Num 0)"
  proof
    assume a: "tz = utc \<and> b = loop_archive \<and> off = Num 0"
    with step readHeader_loop_archive loop_archive_length
    have "loop utc loop_archive (Num 0) (fs @ [loop_entry]) = Some res" by simp
    from ih [OF this] show False by simp
  qed
qed

text \<open>
  C2 at an archive that is one header declaring a compressed size of 4294967272 bytes:
  \<open>readDWord\<close> returns \<open>-24\<close>, the header is returned as an entry and the cursor moves back
  to offset 0, so the loop of \<open>extractAll\<close> reads the same header again, for ever.
\<close>

theorem extractAll_loops_forever:
  "readDWord loop_archive (Num 7) = Inr (- 24, Num 11)
   \<and> readHeader utc loop_archive (Num 0) = Inr (Some loop_entry, Num 0)
   \<and> extractAll utc loop_archive = None"
proof (intro conjI)
  show "readDWord loop_archive (Num 7) = Inr (- 24, Num 11)" by code_simp
  show "readHeader utc loop_archive (Num 0) = Inr (Some loop_entry, Num 0)"
    by (rule readHeader_loop_archive)
  show "extractAll utc loop_archive = None"
  proof (cases "extractAll utc loop_archive")
    case None
    then show ?thesis .
  next
    case (Some result)
    then have "extractAll_loop utc loop_archive (Num 0) [] = Some result"
      by (simp add: extractAll_def)
    from extractAll_loop_archive_never_returns [OF this] show ?thesis by simp
  qed
qed

section \<open>Reading what the encoder wrote\<close>

lemma drop_step:
  "0 \<le> i \<Longrightarrow> drop (nat i) buf = S \<Longrightarrow> drop (nat (i + int k)) buf = drop k S"
  by (auto simp add: nat_add_distrib add.commute)

lemma drop_Cons_nth: "drop n xs = b # r \<Longrightarrow> n < length xs \<and> xs ! n = b"
proof -
  assume a: "drop n xs = b # r"
  then have l: "n < length xs" by (cases "n < length xs") auto
  from a have "hd (drop n xs) = b" by simp
  with l show ?thesis by (simp add: hd_drop_conv_nth)
qed

lemma readByte_suffix:
  assumes "0 \<le> i" "drop (nat i) buf = b # r"
  shows "readByte buf (Num i) = Inr (Num (uint b), Num (i + 1))"
proof -
  from drop_Cons_nth [OF assms(2)] have n: "nat i < length buf" "buf ! nat i = b" by simp_all
  from n(1) assms(1) have "i < int (length buf)" by linarith
  with n(2) assms(1) show ?thesis by (simp add: readByte_def)
qed

lemma readWord_suffix:
  assumes "0 \<le> i" "drop (nat i) buf = b0 # b1 # r"
  shows "readWord buf (Num i) = Inr (uint b0 + uint b1 * 256, Num (i + 2))"
proof -
  have 1: "readByte buf (Num i) = Inr (Num (uint b0), Num (i + 1))"
    using assms by (rule readByte_suffix)
  have "drop (nat (i + int 1)) buf = drop 1 (b0 # b1 # r)"
    using assms by (rule drop_step)
  then have 2: "readByte buf (Num (i + 1)) = Inr (Num (uint b1), Num (i + 1 + 1))"
    using assms(1) by (intro readByte_suffix) auto
  have lo: "0 \<le> uint b0" "uint b0 < 2 ^ 8" using uint_bounded [of b0] by simp_all
  have hi: "0 \<le> uint b1" "uint b1 < 2 ^ 8" using uint_bounded [of b1] by simp_all
  have "js_or (uint b0) (js_shl (uint b1) 8) = uint b0 + uint b1 * 2 ^ 8"
    using lo hi by (intro js_or_shl_byte [where m = 8]) auto
  then show ?thesis
    by (simp add: readWord_def rd_bind_def rd_return_def 1 2 toInt32_uint8)
qed

lemma readDWord_suffix:
  assumes "0 \<le> i" "drop (nat i) buf = b0 # b1 # b2 # b3 # r" "uint b3 < 128"
  shows "readDWord buf (Num i)
     = Inr (uint b0 + uint b1 * 256 + (uint b2 + uint b3 * 256) * 65536, Num (i + 4))"
proof -
  define lo where "lo = uint b0 + uint b1 * 256"
  define hi where "hi = uint b2 + uint b3 * 256"
  have 1: "readWord buf (Num i) = Inr (lo, Num (i + 2))"
    unfolding lo_def using assms(1,2) by (rule readWord_suffix)
  have "drop (nat (i + int 2)) buf = drop 2 (b0 # b1 # b2 # b3 # r)"
    using assms(1,2) by (rule drop_step)
  then have 2: "readWord buf (Num (i + 2)) = Inr (hi, Num (i + 2 + 2))"
    unfolding hi_def using assms(1) by (intro readWord_suffix) auto
  have b: "0 \<le> uint b0" "uint b0 < 256" "0 \<le> uint b1" "uint b1 < 256" "0 \<le> uint b2"
    "uint b2 < 256" "0 \<le> uint b3"
    using uint_bounded [of b0] uint_bounded [of b1] uint_bounded [of b2] by simp_all
  have "js_or lo (js_shl hi 16) = lo + hi * 2 ^ 16"
    using b assms(3) by (intro js_or_shl_byte [where m = 15]) (auto simp add: lo_def hi_def)
  then show ?thesis
    by (simp add: readDWord_def rd_bind_def rd_return_def 1 2 lo_def hi_def)
qed

lemma suffix_fits:
  assumes "0 \<le> i" "i \<le> int (length buf)" "drop (nat i) buf = xs @ r"
  shows "nat i + length xs \<le> length buf" "i + int (length xs) \<le> int (length buf)"
proof -
  have "length (drop (nat i) buf) = length xs + length r" using assms(3) by simp
  then have "length buf - nat i = length xs + length r" by simp
  moreover have "nat i \<le> length buf" using assms(1,2) by linarith
  ultimately show "nat i + length xs \<le> length buf" by linarith
  then show "i + int (length xs) \<le> int (length buf)" using assms(1) by linarith
qed

lemma slice_suffix:
  assumes "0 \<le> i" "i \<le> int (length buf)" "drop (nat i) buf = xs @ r"
  shows "slice buf (Num i) (Num (i + int (length xs))) = xs"
proof -
  note l = suffix_fits(1) [OF assms]
  have "take (length xs) (drop (nat i) buf) = xs" using assms(3) by simp
  then show ?thesis
    using assms(1) l by (simp add: slice_def relative_index_def Let_def nat_add_distrib)
qed

lemma readBytes_suffix:
  assumes "0 \<le> i" "i \<le> int (length buf)" "drop (nat i) buf = xs @ r"
  shows "readBytes buf (Num (int (length xs))) (Num i) = Inr (xs, Num (i + int (length xs)))"
  using slice_suffix [OF assms] suffix_fits(2) [OF assms] by (simp add: readBytes_def)

lemma readString_suffix:
  assumes "0 \<le> i" "i \<le> int (length buf)" "drop (nat i) buf = xs @ r" "0 \<notin> set xs"
  shows "readString buf (Num (int (length xs))) (Num i)
     = Inr (strip_control (utf8_decode xs), Num (i + int (length xs)))"
proof -
  have "slice xs (Num 0) (Num (0 + int (length xs))) = xs"
    by (rule slice_suffix [where r = "[]"]) simp_all
  then show ?thesis
    using assms(4) readBytes_suffix [OF assms(1-3)]
    by (simp add: readString_def rd_bind_def rd_return_def Let_def)
qed

definition cursor_at :: "byte list \<Rightarrow> int \<Rightarrow> byte list \<Rightarrow> bool" where
  \<comment> \<open>the cursor is inside the array and these bytes lie from it to the end\<close>
  "cursor_at buf i S = (0 \<le> i \<and> i \<le> int (length buf) \<and> drop (nat i) buf = S)"

lemma cursor_at_step:
  assumes "cursor_at buf i (xs @ r)"
  shows "cursor_at buf (i + int (length xs)) r"
proof -
  from assms have a: "0 \<le> i" "i \<le> int (length buf)" "drop (nat i) buf = xs @ r"
    by (simp_all add: cursor_at_def)
  have "drop (nat (i + int (length xs))) buf = drop (length xs) (xs @ r)"
    using a(1,3) by (rule drop_step)
  then show ?thesis
    using a(1) suffix_fits(2) [OF a] by (simp add: cursor_at_def)
qed

lemma at_byte:
  assumes "cursor_at buf i (b # r)"
  shows "readByte buf (Num i) = Inr (Num (uint b), Num (i + 1))" "cursor_at buf (i + 1) r"
proof -
  from assms show "readByte buf (Num i) = Inr (Num (uint b), Num (i + 1))"
    by (intro readByte_suffix) (simp_all add: cursor_at_def)
  from cursor_at_step [of buf i "[b]" r] assms show "cursor_at buf (i + 1) r" by simp
qed

lemma at_word:
  assumes "cursor_at buf i (b0 # b1 # r)"
  shows "readWord buf (Num i) = Inr (uint b0 + uint b1 * 256, Num (i + 2))"
    "cursor_at buf (i + 2) r"
proof -
  from assms show "readWord buf (Num i) = Inr (uint b0 + uint b1 * 256, Num (i + 2))"
    by (intro readWord_suffix) (simp_all add: cursor_at_def)
  from cursor_at_step [of buf i "[b0, b1]" r] assms show "cursor_at buf (i + 2) r" by simp
qed

lemma at_dword:
  assumes "cursor_at buf i (b0 # b1 # b2 # b3 # r)" "uint b3 < 128"
  shows "readDWord buf (Num i)
       = Inr (uint b0 + uint b1 * 256 + (uint b2 + uint b3 * 256) * 65536, Num (i + 4))"
    "cursor_at buf (i + 4) r"
proof -
  from assms show "readDWord buf (Num i)
       = Inr (uint b0 + uint b1 * 256 + (uint b2 + uint b3 * 256) * 65536, Num (i + 4))"
    by (intro readDWord_suffix) (simp_all add: cursor_at_def)
  from cursor_at_step [of buf i "[b0, b1, b2, b3]" r] assms show "cursor_at buf (i + 4) r"
    by simp
qed

lemma at_bytes:
  assumes "cursor_at buf i (xs @ r)"
  shows "readBytes buf (Num (int (length xs))) (Num i) = Inr (xs, Num (i + int (length xs)))"
  using assms by (intro readBytes_suffix) (simp_all add: cursor_at_def)

lemma at_string:
  assumes "cursor_at buf i (xs @ r)" "0 \<notin> set xs"
  shows "readString buf (Num (int (length xs))) (Num i)
       = Inr (strip_control (utf8_decode xs), Num (i + int (length xs)))"
  using assms by (intro readString_suffix) (simp_all add: cursor_at_def)

lemma store_tag:
  "strip_control (utf8_decode [45, 108, 104, 48, 45]) = lit ''-lh0-''"
  "(\<not> startsWith (lit ''-lh0-'') (lit ''-lh'') \<and> \<not> startsWith (lit ''-lh0-'') (lit ''-lz'')
    \<and> lit ''-lh0-'' \<noteq> lit ''-lhd-'') = False"
  "utf8_encode (lit ''-lh0-'') = [45, 108, 104, 48, 45]"
  by code_simp+

lemma decompress_store: "decompress (lit ''-lh0-'') payload n = Inr payload"
  by (simp add: decompress_def)

text \<open>A level-0 header with the store method, as \<open>readHeader\<close> reads it.\<close>

lemma readHeader_store:
  fixes buf :: "byte list"
  assumes a0: "cursor_at buf i
      (hs # cs # 45 # 108 # 104 # 48 # 45 # c0 # c1 # c2 # c3 # o0 # o1 # o2 # o3
       # t0 # t1 # d0 # d1 # attr # 0 # flb # nm @ k0 # k1 # payload @ rest)"
    and hs: "hs \<noteq> 0" "uint hs \<le> 128"
    and c: "uint c3 < 128"
      "uint c0 + uint c1 * 256 + (uint c2 + uint c3 * 256) * 65536 = int (length payload)"
    and o: "uint o3 < 128"
      "uint o0 + uint o1 * 256 + (uint o2 + uint o3 * 256) * 65536 \<le> 104857600"
    and fl: "uint flb = int (length nm)" "0 \<notin> set nm"
  shows "\<exists>e. readHeader tz buf (Num i)
        = Inr (Some e, Num (i + 1 + 1 + 5 + 4 + 4 + 2 + 2 + 1 + 1 + 1 + int (length nm) + 2
                 + int (length payload)))
      \<and> filename e = sanitizeFilename (strip_control (utf8_decode nm)) \<and> data e = payload"
proof -
  define osz where "osz = uint o0 + uint o1 * 256 + (uint o2 + uint o3 * 256) * 65536"
  define tv where "tv = uint t0 + uint t1 * 256"
  define dv where "dv = uint d0 + uint d1 * 256"
  define kv where "kv = uint k0 + uint k1 * 256"
  have L5: "int (length [45, 108, 104, 48, 45 :: byte]) = 5" by simp
  have u0: "uint (0 :: byte) = 0" by simp
  have nz: "0 \<notin> set [45, 108, 104, 48, 45 :: byte]" by simp
  note s0 = at_byte(1) [OF a0] and a1 = at_byte(2) [OF a0]
  note s1 = at_byte(1) [OF a1] and a2' = at_byte(2) [OF a1]
  have a2: "cursor_at buf (i + 1 + 1)
      ([45, 108, 104, 48, 45] @ c0 # c1 # c2 # c3 # o0 # o1 # o2 # o3
       # t0 # t1 # d0 # d1 # attr # 0 # flb # nm @ k0 # k1 # payload @ rest)"
    using a2' by simp
  note s2 = at_string [OF a2 nz, unfolded L5 store_tag(1)]
    and a3 = cursor_at_step [OF a2, unfolded L5]
  note s3 = at_dword(1) [OF a3 c(1), unfolded c(2)] and a4 = at_dword(2) [OF a3 c(1)]
  note s4 = at_dword(1) [OF a4 o(1), folded osz_def] and a5 = at_dword(2) [OF a4 o(1)]
  note s5 = at_word(1) [OF a5, folded tv_def] and a6 = at_word(2) [OF a5]
  note s6 = at_word(1) [OF a6, folded dv_def] and a7 = at_word(2) [OF a6]
  note s7 = at_byte(1) [OF a7] and a8 = at_byte(2) [OF a7]
  note s8 = at_byte(1) [OF a8, unfolded u0] and a9 = at_byte(2) [OF a8]
  note s9 = at_byte(1) [OF a9, unfolded fl(1)] and a10 = at_byte(2) [OF a9]
  note s10 = at_string [OF a10 fl(2)] and a11 = cursor_at_step [OF a10]
  note s11 = at_word(1) [OF a11, folded kv_def] and a12 = at_word(2) [OF a11]
  note s12 = at_bytes [OF a12] and a13 = cursor_at_step [OF a12]
  have i: "0 \<le> i" "i < int (length buf)"
  proof -
    from a0 show "0 \<le> i" by (simp add: cursor_at_def)
    from a0 have "drop (nat i) buf \<noteq> []" by (simp add: cursor_at_def)
    then have "nat i < length buf" by simp
    then show "i < int (length buf)" by linarith
  qed
  have q0: "js_ge (Num i) (Num (int (length buf))) = False" using i by simp
  have q1: "(Num (uint hs) = Num 0 \<or> js_gt (Num (uint hs)) (Num 128)) = False"
    using hs by (simp add: uint_0_iff)
  have e13: "i + 1 + 1 + 5 + 4 + 4 + 2 + 2 + 1 + 1 + 1 + int (length nm) + 2
      + int (length payload) \<le> int (length buf)"
    using a13 by (simp add: cursor_at_def)
  have q2: "(int (length payload) > int (length buf) \<or> osz > 100 * 1024 * 1024) = False"
    using e13 o(2) i unfolding osz_def by simp
  have q3: "js_ge (Num 0) (Num 1) = False" by simp
  have q4: "skipExtended buf (Num 0) (Num (uint hs)) = rd_return ()"
    by (simp add: skipExtended_def)
  have q5: "js_gt (js_add (Num (i + 1 + 1 + 5 + 4 + 4 + 2 + 2 + 1 + 1 + 1 + int (length nm) + 2))
             (Num (int (length payload)))) (Num (int (length buf))) = False"
    using e13 by simp
  have q6: "rd_lift (decompress (lit ''-lh0-'') payload osz) = (\<lambda>offset. Inr (payload, offset))"
    by (simp add: decompress_store rd_lift_def)
  have "readHeader tz buf (Num i)
      = Inr (Some \<lparr>filename = sanitizeFilename (strip_control (utf8_decode nm)),
                    originalSize = osz, compressedSize = int (length payload),
                    timestamp = dosDateTimeToDate tz dv tv, crc = kv, method = lit ''-lh0-'',
                    os = Num 0, data = payload\<rparr>,
             Num (i + 1 + 1 + 5 + 4 + 4 + 2 + 2 + 1 + 1 + 1 + int (length nm) + 2
                  + int (length payload)))"
    unfolding readHeader_def
    by (simp only: q0 if_False rd_bind_def s0 sum.case prod.case q1 s1 s2 store_tag(2) s3 s4
          q2 s5 s6 s7 s8 s9 s10 s11 q3 q4 rd_return_def q5 s12 q6)
  then show ?thesis by simp
qed

lemma byte_of_int_nonzero: "0 < x \<Longrightarrow> x < 256 \<Longrightarrow> (word_of_int x :: byte) \<noteq> 0"
proof
  assume a: "0 < x" "x < 256" and z: "(word_of_int x :: byte) = 0"
  from z have "uint (word_of_int x :: byte) = 0" by simp
  then have "x mod 256 = 0" by (simp add: uint_word_of_int)
  with a show False by simp
qed

lemma utf8_bytes_no_nul:
  assumes "0 < cp" "cp < 2097152"
  shows "0 \<notin> set (utf8_bytes cp)"
proof -
  have m: "0 < 128 + x mod 64" "128 + x mod 64 < 256" for x :: int
    using pos_mod_bound [of 64 x] pos_mod_sign [of 64 x] by simp_all
  consider "cp < 0x80" | "0x80 \<le> cp" "cp < 0x800" | "0x800 \<le> cp" "cp < 0x10000"
    | "0x10000 \<le> cp" by linarith
  then show ?thesis
  proof cases
    case 1
    then show ?thesis using assms(1) by (simp add: utf8_bytes_def byte_of_int_nonzero del: of_int_add)
  next
    case 2
    then have "0 < 192 + cp div 64" "192 + cp div 64 < 256" by simp_all
    then show ?thesis using 2 m by (simp add: utf8_bytes_def byte_of_int_nonzero del: of_int_add)
  next
    case 3
    then have "0 < 224 + cp div 4096" "224 + cp div 4096 < 256" by simp_all
    then show ?thesis using 3 m by (simp add: utf8_bytes_def byte_of_int_nonzero del: of_int_add)
  next
    case 4
    then have "0 < 240 + cp div 262144" "240 + cp div 262144 < 256" using assms(2) by simp_all
    then show ?thesis using 4 m by (simp add: utf8_bytes_def byte_of_int_nonzero del: of_int_add)
  qed
qed

lemma utf8_encode_no_nul: "0 \<notin> set us \<Longrightarrow> 0 \<notin> set (utf8_encode us)"
proof (induction us rule: utf8_encode.induct)
  case 1
  then show ?case by simp
next
  case (2 u)
  then have "uint u \<noteq> 0" by (simp add: uint_0_iff)
  with uint_ge_0 [of u] have "0 < uint u" by linarith
  moreover have "uint u < 2097152" using uint_bounded [of u] by simp
  ultimately show ?case by (simp add: utf8_bytes_no_nul)
next
  case (3 u l us)
  have "uint u \<noteq> 0" using 3(4) by (simp add: uint_0_iff)
  with uint_ge_0 [of u] have u0: "0 < uint u" by linarith
  have u: "0 < uint u" "uint u < 65536"
    using u0 uint_bounded [of u] by simp_all
  have l: "0 \<le> uint l" "uint l < 65536" using uint_bounded [of l] by simp_all
  show ?case
  proof (cases "0xD800 \<le> u \<and> u \<le> 0xDBFF \<and> 0xDC00 \<le> l \<and> l \<le> 0xDFFF")
    case True
    then have "0xD800 \<le> uint u" "0xDC00 \<le> uint l" "uint u \<le> 0xDBFF" "uint l \<le> 0xDFFF"
      by (simp_all add: word_le_def)
    then have "0 < 0x10000 + (uint u - 0xD800) * 1024 + (uint l - 0xDC00)"
      "0x10000 + (uint u - 0xD800) * 1024 + (uint l - 0xDC00) < 2097152"
      by simp_all
    then have "0 \<notin> set (utf8_bytes (0x10000 + (uint u - 0xD800) * 1024 + (uint l - 0xDC00)))"
      by (rule utf8_bytes_no_nul)
    moreover have "0 \<notin> set (utf8_encode us)" using 3(1) [OF True] 3(4) by simp
    ultimately show ?thesis using True by simp
  next
    case False
    have r: "0 \<notin> set (utf8_encode (l # us))"
    proof (cases "0xD800 \<le> u \<and> u \<le> 0xDFFF")
      case True
      with 3(2) [OF False True] 3(4) show ?thesis by simp
    next
      case f: False
      with 3(3) [OF False f] 3(4) show ?thesis by simp
    qed
    have "0 \<notin> set (utf8_bytes (uint u))" using u by (intro utf8_bytes_no_nul) simp_all
    moreover have "0 \<notin> set (utf8_bytes 0xFFFD)" by (intro utf8_bytes_no_nul) simp_all
    ultimately show ?thesis using False r by auto
  qed
qed

end
